theory Spec2Isabelle
  imports Complex_Main "HOL-Library.Multiset"
begin

section \<open>Python values used by the miner\<close>

text \<open>
  The exceptions the mining code can raise: a missing dictionary key, the remainder by a
  zero partition count, a string that \<open>int()\<close> or \<open>float()\<close> rejects, an ordering
  comparison between an integer and a value that is not a number, and a list index out
  of range.
\<close>

datatype error = KeyError | ZeroDivisionError | ValueError | TypeError | IndexError

text \<open>
  A Python \<open>dict\<close> keeps its keys in insertion order; it is an association list with
  distinct keys. \<open>dict_get\<close> is \<open>d[k]\<close> on a key that may be missing, \<open>dict_set\<close> is
  \<open>d[k] = v\<close> (the position of an existing key is kept, a new key goes to the end),
  \<open>dict_update\<close> is \<open>d.update(e)\<close>, \<open>dict_of\<close> is \<open>dict(pairs)\<close>.
\<close>

type_synonym ('k, 'v) dict = "('k \<times> 'v) list"

definition dict_has :: "('k, 'v) dict \<Rightarrow> 'k \<Rightarrow> bool" where
  "dict_has d k = (map_of d k \<noteq> None)"

definition dict_get :: "('k, 'v) dict \<Rightarrow> 'k \<Rightarrow> error + 'v" where
  "dict_get d k = (case map_of d k of None \<Rightarrow> Inl KeyError | Some v \<Rightarrow> Inr v)"

fun dict_set :: "('k, 'v) dict \<Rightarrow> 'k \<Rightarrow> 'v \<Rightarrow> ('k, 'v) dict" where
  "dict_set [] k v = [(k, v)]"
| "dict_set ((k', v') # d) k v = (if k' = k then (k, v) # d else (k', v') # dict_set d k v)"

definition dict_update :: "('k, 'v) dict \<Rightarrow> ('k, 'v) dict \<Rightarrow> ('k, 'v) dict" where
  "dict_update d e = fold (\<lambda>(k, v) acc. dict_set acc k v) e d"

definition dict_of :: "('k \<times> 'v) list \<Rightarrow> ('k, 'v) dict" where
  "dict_of kvs = dict_update [] kvs"

text \<open>\<open>d[k] += c\<close> on a \<open>defaultdict(int)\<close>: a missing key starts at 0.\<close>

definition dd_add :: "('k, int) dict \<Rightarrow> 'k \<Rightarrow> int \<Rightarrow> ('k, int) dict" where
  "dd_add d k c = dict_set d k ((case map_of d k of None \<Rightarrow> 0 | Some v \<Rightarrow> v) + c)"

text \<open>A loop whose body may raise stops at the first exception.\<close>

fun foldE :: "('a \<Rightarrow> 's \<Rightarrow> error + 's) \<Rightarrow> 'a list \<Rightarrow> 's \<Rightarrow> error + 's" where
  "foldE f [] s = Inr s"
| "foldE f (x # xs) s = (case f x s of Inl e \<Rightarrow> Inl e | Inr s' \<Rightarrow> foldE f xs s')"

fun mapE :: "('a \<Rightarrow> error + 'b) \<Rightarrow> 'a list \<Rightarrow> error + 'b list" where
  "mapE f [] = Inr []"
| "mapE f (x # xs) =
     (case f x of Inl e \<Rightarrow> Inl e
      | Inr y \<Rightarrow> (case mapE f xs of Inl e \<Rightarrow> Inl e | Inr ys \<Rightarrow> Inr (y # ys)))"

text \<open>\<open>xs.index(x)\<close>, used by the source only on an \<open>x\<close> taken from \<open>xs\<close> itself.\<close>

definition index_of :: "'a list \<Rightarrow> 'a \<Rightarrow> nat" where
  "index_of xs x = length (takeWhile (\<lambda>y. y \<noteq> x) xs)"

section \<open>The prefix tree\<close>

text \<open>
  \<open>_Node\<close> objects are shared: a node is reachable through its parent's \<open>children\<close> and
  through \<open>nodeLink\<close>, and its \<open>count\<close> is updated in place after it was linked. The tree
  therefore carries an explicit store \<open>nodes\<close>: a reference to a node is its index in the
  store, and allocation appends. The root's \<open>item\<close> is \<open>None\<close>.
\<close>

record node =
  item :: "nat option"
  count_n :: int
  children :: "(nat, nat) dict"
  prefix :: "nat list"

record tree =
  nodes :: "node list"
  root :: nat
  nodeLink :: "(nat, nat list) dict"
  itemCount :: "(nat, int) dict"

definition new_Node :: "nat option \<Rightarrow> nat list \<Rightarrow> node" where
  "new_Node it pre = \<lparr>item = it, count_n = 0, children = [], prefix = pre\<rparr>"

definition new_Tree :: tree where
  "new_Tree = \<lparr>nodes = [new_Node None []], root = 0, nodeLink = [], itemCount = []\<rparr>"

definition add_count :: "tree \<Rightarrow> nat \<Rightarrow> int \<Rightarrow> tree" where
  "add_count T a c =
     T\<lparr>nodes := (nodes T)[a := (nodes T ! a)\<lparr>count_n := count_n (nodes T ! a) + c\<rparr>]\<rparr>"

text \<open>
  \<open>addNodeToNodeLink(node)\<close>, with the node given by its reference. It is only called on a
  node that \<open>addTransaction\<close> has just created, whose \<open>item\<close> is a rank; on the root, whose
  item is \<open>None\<close>, the model leaves the tree as it is.
\<close>

definition addNodeToNodeLink :: "tree \<Rightarrow> nat \<Rightarrow> tree" where
  "addNodeToNodeLink T a =
     (case item (nodes T ! a) of
        None \<Rightarrow> T
      | Some r \<Rightarrow>
          (case map_of (nodeLink T) r of
             None \<Rightarrow> T\<lparr>nodeLink := dict_set (nodeLink T) r [a]\<rparr>
           | Some as \<Rightarrow> T\<lparr>nodeLink := dict_set (nodeLink T) r (as @ [a])\<rparr>))"

text \<open>
  One iteration of the loop of \<open>addTransaction\<close>: the state is the tree and the reference
  \<open>current\<close>. A missing child is allocated at the end of the store with the prefix
  \<open>transaction[0:transaction.index(item)]\<close>, entered into \<open>current.children\<close>, counted and
  linked; an existing child is counted. Then \<open>itemCount[item]\<close> grows and \<open>current\<close> moves
  to the child.
\<close>

definition addItem :: "nat list \<Rightarrow> int \<Rightarrow> nat \<Rightarrow> tree \<times> nat \<Rightarrow> tree \<times> nat" where
  "addItem transaction cnt it s =
     (let T = fst s; current = snd s in
      case map_of (children (nodes T ! current)) it of
        None \<Rightarrow>
          (let a = length (nodes T);
               cur' = (nodes T ! current)\<lparr>children := dict_set (children (nodes T ! current)) it a\<rparr>;
               T1 = T\<lparr>nodes := (nodes T)[current := cur']
                          @ [new_Node (Some it) (take (index_of transaction it) transaction)]\<rparr>;
               T2 = add_count T1 a cnt;
               T3 = addNodeToNodeLink T2 a
           in (T3\<lparr>itemCount := dd_add (itemCount T3) it cnt\<rparr>, a))
      | Some a \<Rightarrow>
          (let T1 = add_count T a cnt
           in (T1\<lparr>itemCount := dd_add (itemCount T1) it cnt\<rparr>, a)))"

definition addTransaction :: "tree \<Rightarrow> nat list \<Rightarrow> int \<Rightarrow> tree" where
  "addTransaction T transaction cnt =
     fst (fold (addItem transaction cnt) transaction (T, root T))"

text \<open>\<open>generateConditionalTree(item)\<close>: \<open>self.nodeLink[item]\<close> raises on a missing key.\<close>

definition generateConditionalTree :: "tree \<Rightarrow> nat \<Rightarrow> error + tree" where
  "generateConditionalTree T it =
     (case map_of (nodeLink T) it of
        None \<Rightarrow> Inl KeyError
      | Some as \<Rightarrow>
          Inr (fold (\<lambda>a tr. addTransaction tr (prefix (nodes T ! a)) (count_n (nodes T ! a)))
                 as new_Tree))"

definition buildTree :: "tree \<Rightarrow> nat list list \<Rightarrow> tree" where
  "buildTree tr data = fold (\<lambda>trans t. addTransaction t trans 1) data tr"


section \<open>The parallel miner\<close>

text \<open>
  The value given as \<open>minSup\<close> is dynamically typed: an \<open>int\<close>, a \<open>float\<close>, a \<open>str\<close>,
  a \<open>bool\<close>, or something else (\<open>PNone\<close> stands for \<open>None\<close> and for every other type that
  has no order with integers). A finite float is a rational number, and Python compares
  an integer with a float exactly, so \<open>PFloat\<close> carries a rational.
\<close>

datatype pyval = PInt int | PFloat rat | PStr string | PBool bool | PNone

text \<open>
  The built-ins \<open>int(s)\<close>, \<open>float(s)\<close> (\<open>None\<close> where they raise \<open>ValueError\<close>) and the
  rounding product of an integer with a float belong to the interpreter; they are
  parameters of the model.
\<close>

record builtins =
  int_of_str :: "string \<Rightarrow> int option"
  float_of_str :: "string \<Rightarrow> rat option"
  mul_int_float :: "int \<Rightarrow> rat \<Rightarrow> rat"

record miner =
  iFile :: string
  minSup :: pyval
  numPartitions :: int
  sep :: string
  lno :: int
  finalPatterns :: "(string, int) dict"
  FPList :: "string list"

text \<open>
  Modelled from the spec: the constructor of the base class \<open>_frequentPatterns\<close>
  (module \<open>abstract\<close>) is not among the sources. It stores the input source, the
  minimum-support value, the number of partitions and the item separator.
\<close>

definition init :: "string \<Rightarrow> pyval \<Rightarrow> int \<Rightarrow> string \<Rightarrow> miner" where
  "init iFile' minSup' numWorkers sep' =
     \<lparr>iFile = iFile', minSup = minSup', numPartitions = numWorkers, sep = sep',
      lno = 0, finalPatterns = [], FPList = []\<rparr>"

text \<open>
  \<open>_convert\<close> returns the converted value together with what it printed. The last branch
  prints and returns the value as it came.
\<close>

definition convert :: "builtins \<Rightarrow> int \<Rightarrow> pyval \<Rightarrow> error + (pyval \<times> string list)" where
  "convert py lno' v =
     (case v of
        PInt n \<Rightarrow> Inr (PInt n, [])
      | PFloat f \<Rightarrow> Inr (PFloat (mul_int_float py lno' f), [])
      | PStr s \<Rightarrow>
          (if CHR ''.'' \<in> set s
           then (case float_of_str py s of
                   None \<Rightarrow> Inl ValueError
                 | Some f \<Rightarrow> Inr (PFloat (mul_int_float py lno' f), []))
           else (case int_of_str py s of
                   None \<Rightarrow> Inl ValueError
                 | Some n \<Rightarrow> Inr (PInt n, [])))
      | _ \<Rightarrow> Inr (v, [''minSup is not correct'']))"

text \<open>\<open>c >= minSup\<close> for an integer \<open>c\<close>: \<open>True\<close> counts as 1, a non-number raises.\<close>

fun ge_minSup :: "pyval \<Rightarrow> int \<Rightarrow> error + bool" where
  "ge_minSup (PInt n) c = Inr (n \<le> c)"
| "ge_minSup (PFloat f) c = Inr (f \<le> of_int c)"
| "ge_minSup (PBool b) c = Inr ((if b then 1 else 0) \<le> c)"
| "ge_minSup (PStr s) c = Inl TypeError"
| "ge_minSup PNone c = Inl TypeError"

fun filterE :: "('a \<Rightarrow> error + bool) \<Rightarrow> 'a list \<Rightarrow> error + 'a list" where
  "filterE p [] = Inr []"
| "filterE p (x # xs) =
     (case p x of Inl e \<Rightarrow> Inl e
      | Inr b \<Rightarrow> (case filterE p xs of Inl e \<Rightarrow> Inl e
                   | Inr ys \<Rightarrow> Inr (if b then x # ys else ys)))"

definition getPartitionId :: "int \<Rightarrow> nat \<Rightarrow> error + int" where
  "getPartitionId numPartitions' v =
     (if numPartitions' = 0 then Inl ZeroDivisionError else Inr (int v mod numPartitions'))"

definition genCondTransaction ::
  "int \<Rightarrow> 'a list \<Rightarrow> ('a, nat) dict \<Rightarrow> error + (int, nat list) dict" where
  "genCondTransaction numPartitions' transaction rank =
     (let newTrans = sort (List.map_filter (map_of rank) transaction) in
      foldE (\<lambda>i condTrans.
               case getPartitionId numPartitions' i of
                 Inl e \<Rightarrow> Inl e
               | Inr part \<Rightarrow>
                   Inr (if \<not> dict_has condTrans part
                        then dict_set condTrans part (take (index_of newTrans i + 1) newTrans)
                        else condTrans))
        (rev newTrans) [])"

text \<open>
  The aggregate that \<open>genFreqPatterns\<close> computes from \<open>condTree.nodeLink\<close>: for every key
  the sum of the counts of the linked nodes.
\<close>

definition linkCounts :: "tree \<Rightarrow> (nat, int) dict" where
  "linkCounts condTree =
     map (\<lambda>(i, as). (i, (\<Sum>a\<leftarrow>as. count_n (nodes condTree ! a)))) (nodeLink condTree)"

text \<open>
  \<open>genFreqPatterns\<close>; its second loop, which calls \<open>genFreqPatterns\<close> again, is
  \<open>genFreqLoop\<close>, with the dictionary \<open>freqPatterns\<close> as accumulator.
\<close>

function genFreqPatterns :: "pyval \<Rightarrow> nat \<Rightarrow> nat list \<Rightarrow> tree \<Rightarrow> error + (nat list, int) dict"
  and genFreqLoop ::
    "pyval \<Rightarrow> nat list \<Rightarrow> tree \<Rightarrow> (nat \<times> int) list \<Rightarrow> (nat list, int) dict
       \<Rightarrow> error + (nat list, int) dict"
  where
  "genFreqPatterns minSup' it pre tr =
     (case generateConditionalTree tr it of
        Inl e \<Rightarrow> Inl e
      | Inr condTree \<Rightarrow>
          (case filterE (\<lambda>kv. ge_minSup minSup' (snd kv)) (linkCounts condTree) of
             Inl e \<Rightarrow> Inl e
           | Inr freqItems \<Rightarrow> genFreqLoop minSup' pre condTree freqItems []))"
| "genFreqLoop minSup' pre condTree [] freqPatterns = Inr freqPatterns"
| "genFreqLoop minSup' pre condTree (iv # rest) freqPatterns =
     (case genFreqPatterns minSup' (fst iv) (pre @ [fst iv]) condTree of
        Inl e \<Rightarrow> Inl e
      | Inr sub \<Rightarrow>
          genFreqLoop minSup' pre condTree rest
            (dict_update (dict_set freqPatterns (pre @ [fst iv]) (snd iv)) sub))"
  by pat_completeness auto

definition genAllFrequentPatterns ::
  "int \<Rightarrow> pyval \<Rightarrow> int \<times> tree \<Rightarrow> error + (nat list \<times> int) list" where
  "genAllFrequentPatterns numPartitions' minSup' tree_tuple =
     (let itemList = map fst (sort_key snd (itemCount (snd tree_tuple))) in
      foldE (\<lambda>it freqPatterns.
               case getPartitionId numPartitions' it of
                 Inl e \<Rightarrow> Inl e
               | Inr pid \<Rightarrow>
                   if pid = fst tree_tuple
                   then (case genFreqPatterns minSup' it [it] (snd tree_tuple) of
                           Inl e \<Rightarrow> Inl e
                         | Inr fp \<Rightarrow> Inr (dict_update freqPatterns fp))
                   else Inr freqPatterns)
        itemList [])"


subsection \<open>Reading the input\<close>

text \<open>
  \<open>x.rstrip()\<close> removes trailing white space and \<open>s.split('\t')\<close> cuts at every tab; the
  empty string splits into one empty item. The white space of the model is that of ASCII
  text.
\<close>

definition isspace :: "char \<Rightarrow> bool" where
  "isspace c = (of_char c \<in> {9, 10, 11, 12, 13, 28, 29, 30, 31, 32 :: nat})"

definition rstrip :: "string \<Rightarrow> string" where
  "rstrip s = rev (dropWhile isspace (rev s))"

fun split_on :: "char \<Rightarrow> string \<Rightarrow> string list" where
  "split_on c [] = [[]]"
| "split_on c (x # xs) =
     (if x = c then [] # split_on c xs
      else (case split_on c xs of [] \<Rightarrow> [[x]] | w # ws \<Rightarrow> (x # w) # ws))"

text \<open>The function mapped over the lines of the input file by \<open>startMine\<close>.\<close>

definition parse_line :: "string \<Rightarrow> string list" where
  "parse_line x = split_on (CHR 0x09) (rstrip x)"

subsection \<open>The operations of the execution engine\<close>

text \<open>
  The engine's collections are lists. \<open>reduceByKey(add)\<close> and \<open>groupByKey()\<close> gather the
  values of a key; the engine leaves the order of the keys open, the model takes the order
  of first occurrence. \<open>sortBy(count, ascending=False)\<close> is a stable sort here.
  \<open>foldByKey(_Tree(), buildTree)\<close> after \<open>groupByKey()\<close> meets one value per key and
  builds one tree from a fresh \<open>_Tree()\<close> for it.
\<close>

definition reduceByKey_add :: "('k \<times> int) list \<Rightarrow> ('k, int) dict" where
  "reduceByKey_add kvs = fold (\<lambda>(k, v) d. dd_add d k v) kvs []"

definition sortBy_desc :: "('k \<times> int) list \<Rightarrow> ('k \<times> int) list" where
  "sortBy_desc kvs = sort_key (\<lambda>x. - snd x) kvs"

definition groupByKey :: "('k \<times> 'v) list \<Rightarrow> ('k, 'v list) dict" where
  "groupByKey kvs =
     fold (\<lambda>(k, v) d. dict_set d k ((case map_of d k of None \<Rightarrow> [] | Some vs \<Rightarrow> vs) @ [v]))
       kvs []"

definition foldByKey_buildTree :: "('k, nat list list) dict \<Rightarrow> ('k \<times> tree) list" where
  "foldByKey_buildTree groups = map (\<lambda>(k, data). (k, buildTree new_Tree data)) groups"

subsection \<open>Assembling the result\<close>

text \<open>
  Before the last loop of \<open>startMine\<close> the keys of \<open>_finalPatterns\<close> are strings (single
  items) and tuples of strings (longer patterns).
\<close>

datatype pattern_key = KStr string | KTuple "string list"

definition nthE :: "'a list \<Rightarrow> nat \<Rightarrow> error + 'a" where
  "nthE xs z = (if z < length xs then Inr (xs ! z) else Inl IndexError)"

definition to_labels :: "string list \<Rightarrow> nat list \<times> int \<Rightarrow> error + (pattern_key \<times> int)" where
  "to_labels FPList' ranks_count =
     (case mapE (nthE FPList') (fst ranks_count) of
        Inl e \<Rightarrow> Inl e
      | Inr items \<Rightarrow> Inr (KTuple items, snd ranks_count))"

fun joinKey :: "pattern_key \<Rightarrow> string" where
  "joinKey (KStr pattern) = pattern @ [CHR 0x09]"
| "joinKey (KTuple pattern) = concat (map (\<lambda>it. it @ [CHR 0x09]) pattern)"

text \<open>
  \<open>startMine\<close> on the lines of the input file: the new state of the miner and what was
  printed. An exception raised inside a task of the engine ends the run.
\<close>

definition startMine :: "builtins \<Rightarrow> miner \<Rightarrow> string list \<Rightarrow> error + (miner \<times> string list)" where
  "startMine py self lines =
     (let rdd = map parse_line lines;
          lno' = int (length rdd)
      in case convert py lno' (minSup self) of
           Inl e \<Rightarrow> Inl e
         | Inr (minSup', out) \<Rightarrow>
      (case filterE (\<lambda>x. ge_minSup minSup' (snd x))
              (reduceByKey_add (concat (map (\<lambda>trans. map (\<lambda>it. (it, 1)) trans) rdd))) of
           Inl e \<Rightarrow> Inl e
         | Inr frequent \<Rightarrow>
      (let freqItems = sortBy_desc frequent;
           finalPatterns0 = dict_of (map (\<lambda>(it, c). (KStr it, c)) freqItems);
           FPList' = map fst freqItems;
           rank = dict_of (map (\<lambda>(index, it). (it, index)) (enumerate 0 FPList'))
       in case mapE (\<lambda>x. genCondTransaction (numPartitions self) x rank) rdd of
            Inl e \<Rightarrow> Inl e
          | Inr cond \<Rightarrow>
       (let workByPartition = groupByKey (concat cond);
            trees = foldByKey_buildTree workByPartition
        in case mapE (genAllFrequentPatterns (numPartitions self) minSup') trees of
             Inl e \<Rightarrow> Inl e
           | Inr freqPatterns \<Rightarrow>
        (case mapE (to_labels FPList') (concat freqPatterns) of
             Inl e \<Rightarrow> Inl e
           | Inr result \<Rightarrow>
        (let finalPatterns1 = dict_update finalPatterns0 (dict_of result);
             temp = fold (\<lambda>(pattern, v) temp. dict_set temp (joinKey pattern) v)
                      finalPatterns1 []
         in Inr (self\<lparr>minSup := minSup', lno := lno', FPList := FPList',
                       finalPatterns := temp\<rparr>,
                 out @ [''Frequent patterns were generated successfully using Parallel FPGrowth algorithm''])))))))"

section \<open>Notions used to state the properties\<close>

definition link :: "tree \<Rightarrow> nat \<Rightarrow> nat list" where
  "link T r = (case map_of (nodeLink T) r of None \<Rightarrow> [] | Some as \<Rightarrow> as)"

definition wt :: "(nat list \<times> int) list \<Rightarrow> nat list \<Rightarrow> int" where
  "wt V p = (\<Sum>v\<leftarrow>filter (\<lambda>v. fst v = p) V. snd v)"

definition store_inv :: "tree \<Rightarrow> (nat list \<times> int) list \<Rightarrow> (nat \<Rightarrow> nat list) \<Rightarrow> bool" where
  "store_inv T V pth \<longleftrightarrow>
     root T = 0 \<and> 0 < length (nodes T) \<and> pth 0 = [] \<and>
     item (nodes T ! 0) = None \<and> count_n (nodes T ! 0) = 0 \<and> prefix (nodes T ! 0) = [] \<and>
     inj_on pth {..<length (nodes T)} \<and>
     pth ` {..<length (nodes T)} = insert [] (fst ` set V) \<and>
     (\<forall>v\<in>set V. fst v \<noteq> [] \<and> butlast (fst v) \<in> insert [] (fst ` set V))"

definition node_inv :: "tree \<Rightarrow> (nat list \<times> int) list \<Rightarrow> (nat \<Rightarrow> nat list) \<Rightarrow> bool" where
  "node_inv T V pth \<longleftrightarrow>
     (\<forall>a<length (nodes T). 0 < a \<longrightarrow>
        item (nodes T ! a) = Some (last (pth a)) \<and>
        prefix (nodes T ! a) = takeWhile (\<lambda>x. x \<noteq> last (pth a)) (pth a) \<and>
        count_n (nodes T ! a) = wt V (pth a))"

definition child_inv :: "tree \<Rightarrow> (nat \<Rightarrow> nat list) \<Rightarrow> bool" where
  "child_inv T pth \<longleftrightarrow>
     (\<forall>m<length (nodes T). \<forall>r a.
        (map_of (children (nodes T ! m)) r = Some a) =
        (a < length (nodes T) \<and> pth a = pth m @ [r]))"

definition link_inv :: "tree \<Rightarrow> (nat list \<times> int) list \<Rightarrow> (nat \<Rightarrow> nat list) \<Rightarrow> bool" where
  "link_inv T V pth \<longleftrightarrow>
     distinct (map fst (nodeLink T)) \<and>
     (\<forall>r. distinct (link T r) \<and>
          set (link T r) = {a. 0 < a \<and> a < length (nodes T) \<and> last (pth a) = r}) \<and>
     (\<forall>r. (map_of (nodeLink T) r \<noteq> None) = (\<exists>v\<in>set V. last (fst v) = r))"

definition count_inv :: "tree \<Rightarrow> (nat list \<times> int) list \<Rightarrow> bool" where
  "count_inv T V \<longleftrightarrow>
     distinct (map fst (itemCount T)) \<and>
     (\<forall>r. map_of (itemCount T) r =
          (if \<exists>v\<in>set V. last (fst v) = r
           then Some (\<Sum>v\<leftarrow>filter (\<lambda>v. last (fst v) = r) V. snd v) else None))"

definition sum_inv :: "tree \<Rightarrow> (nat list \<times> int) list \<Rightarrow> bool" where
  "sum_inv T V \<longleftrightarrow>
     (\<forall>r P. (\<Sum>a\<leftarrow>filter (\<lambda>a. P (prefix (nodes T ! a))) (link T r). count_n (nodes T ! a)) =
            (\<Sum>v\<leftarrow>filter (\<lambda>v. last (fst v) = r \<and> P (takeWhile (\<lambda>x. x \<noteq> r) (fst v))) V. snd v))"

definition tree_inv :: "tree \<Rightarrow> (nat list \<times> int) list \<Rightarrow> (nat \<Rightarrow> nat list) \<Rightarrow> bool" where
  "tree_inv T V pth \<longleftrightarrow>
     store_inv T V pth \<and> node_inv T V pth \<and> child_inv T pth \<and> link_inv T V pth \<and>
     count_inv T V \<and> sum_inv T V"

definition visits_from :: "nat \<Rightarrow> nat list \<Rightarrow> int \<Rightarrow> (nat list \<times> int) list" where
  "visits_from k t c = map (\<lambda>j. (take (Suc j) t, c)) [k..<length t]"

definition visits :: "nat list \<Rightarrow> int \<Rightarrow> (nat list \<times> int) list" where
  "visits t c = map (\<lambda>j. (take (Suc j) t, c)) [0..<length t]"

definition all_visits :: "(nat list \<times> int) list \<Rightarrow> (nat list \<times> int) list" where
  "all_visits D = concat (map (\<lambda>tc. visits (fst tc) (snd tc)) D)"

definition insert_all :: "(nat list \<times> int) list \<Rightarrow> tree \<Rightarrow> tree" where
  "insert_all D T = fold (\<lambda>tc tr. addTransaction tr (fst tc) (snd tc)) D T"

definition patternBase :: "tree \<Rightarrow> nat \<Rightarrow> (nat list \<times> int) list" where
  "patternBase T r = map (\<lambda>a. (prefix (nodes T ! a), count_n (nodes T ! a))) (link T r)"

definition link_height :: "tree \<Rightarrow> nat" where
  "link_height T =
     (if nodeLink T = [] then 0
      else Suc (Max (set (0 # map (\<lambda>a. length (prefix (nodes T ! a)))
                                (concat (map snd (nodeLink T)))))))"

text \<open>
  The body of the loop of \<open>genCondTransaction\<close> when the partition count is not zero.
\<close>

definition project_step :: "int \<Rightarrow> nat list \<Rightarrow> nat \<Rightarrow> (int, nat list) dict \<Rightarrow> (int, nat list) dict" where
  "project_step n newTrans i condTrans =
     (if \<not> dict_has condTrans (int i mod n)
      then dict_set condTrans (int i mod n) (take (index_of newTrans i + 1) newTrans)
      else condTrans)"

text \<open>A sample interpreter for the examples: it reads two strings and multiplies exactly.\<close>

definition py_sample :: builtins where
  "py_sample =
     \<lparr>int_of_str = (\<lambda>s. if s = ''2'' then Some 2 else None),
      float_of_str = (\<lambda>s. if s = ''0.5'' then Some (1 / 2) else None),
      mul_int_float = (\<lambda>n f. of_int n * f)\<rparr>"

text \<open>
  Following the \<open>children\<close> dictionaries from a node along a sequence of ranks;
  \<open>node_at T p\<close> is the reference of the node of \<open>T\<close> at the path \<open>p\<close> from the root.
\<close>

fun walk :: "tree \<Rightarrow> nat \<Rightarrow> nat list \<Rightarrow> nat option" where
  "walk T a [] = Some a"
| "walk T a (r # rs) =
     (case map_of (children (nodes T ! a)) r of None \<Rightarrow> None | Some b \<Rightarrow> walk T b rs)"

definition node_at :: "tree \<Rightarrow> nat list \<Rightarrow> nat option" where
  "node_at T p = walk T (root T) p"

text \<open>
  What a tree holds at a path, without the references: rank, count and prefix of the
  node there and the ranks of its children.
\<close>

definition node_view :: "tree \<Rightarrow> nat list \<Rightarrow> (nat option \<times> int \<times> nat list \<times> nat set) option" where
  "node_view T p =
     map_option (\<lambda>a. (item (nodes T ! a), count_n (nodes T ! a), prefix (nodes T ! a),
                        fst ` set (children (nodes T ! a))))
       (node_at T p)"

text \<open>
  The greatest number of calls of \<open>genFreqPatterns\<close> nested inside a call of
  \<open>genFreqPatterns\<close>: 0 when the call makes no further call. The two functions follow the
  recursion of \<open>genFreqPatterns\<close> and \<open>genFreqLoop\<close>.
\<close>

function genFreqDepth :: "pyval \<Rightarrow> nat \<Rightarrow> tree \<Rightarrow> nat"
  and genFreqLoopDepth :: "pyval \<Rightarrow> tree \<Rightarrow> (nat \<times> int) list \<Rightarrow> nat"
  where
  "genFreqDepth minSup' it tr =
     (case generateConditionalTree tr it of
        Inl e \<Rightarrow> 0
      | Inr condTree \<Rightarrow>
          (case filterE (\<lambda>kv. ge_minSup minSup' (snd kv)) (linkCounts condTree) of
             Inl e \<Rightarrow> 0
           | Inr freqItems \<Rightarrow> genFreqLoopDepth minSup' condTree freqItems))"
| "genFreqLoopDepth minSup' condTree [] = 0"
| "genFreqLoopDepth minSup' condTree (iv # rest) =
     max (Suc (genFreqDepth minSup' (fst iv) condTree)) (genFreqLoopDepth minSup' condTree rest)"
  by pat_completeness auto

text \<open>Weighted transactions that are ascending sequences of distinct ranks.\<close>

definition ascending_db :: "(nat list \<times> int) list \<Rightarrow> bool" where
  "ascending_db D \<longleftrightarrow> (\<forall>tc\<in>set D. sorted (fst tc) \<and> distinct (fst tc))"

text \<open>
  The weighted support of a set of ranks in a list of weighted transactions: the sum of
  the weights of the transactions that contain the set. \<open>mining_db\<close>: ascending
  transactions of distinct ranks with positive weights.
\<close>

definition wsupp :: "(nat list \<times> int) list \<Rightarrow> nat set \<Rightarrow> int" where
  "wsupp D X = (\<Sum>tc\<leftarrow>filter (\<lambda>tc. X \<subseteq> set (fst tc)) D. snd tc)"

definition mining_db :: "(nat list \<times> int) list \<Rightarrow> bool" where
  "mining_db D \<longleftrightarrow> ascending_db D \<and> (\<forall>tc\<in>set D. 0 < snd tc)"

text \<open>The number that an integer is compared with when \<open>minSup\<close> is a number.\<close>

fun threshold :: "pyval \<Rightarrow> rat option" where
  "threshold (PInt n) = Some (of_int n)"
| "threshold (PFloat f) = Some f"
| "threshold (PBool b) = Some (if b then 1 else 0)"
| "threshold (PStr s) = None"
| "threshold PNone = None"

text \<open>
  What a call \<open>genFreqPatterns(r, pre, tree)\<close> is to return for a tree that holds the
  weighted transactions \<open>D\<close>: the pattern \<open>pre @ ys\<close> for every non-empty \<open>ys\<close> such that
  \<open>r # ys\<close> descends strictly, with the weighted support of these ranks, when that support
  reaches the threshold and is positive.
\<close>

definition mined :: "rat \<Rightarrow> (nat list \<times> int) list \<Rightarrow> nat \<Rightarrow> nat list \<Rightarrow> nat list \<Rightarrow> int \<Rightarrow> bool" where
  "mined thr D r pre k v \<longleftrightarrow>
     (\<exists>ys. ys \<noteq> [] \<and> k = pre @ ys \<and> sorted_wrt (>) (r # ys) \<and>
           v = wsupp D (set (r # ys)) \<and> thr \<le> of_int v \<and> 0 < v)"

text \<open>
  \<open>genCondTransaction\<close> on the sorted ranks of a transaction, for a partition count other
  than zero.
\<close>

definition project :: "int \<Rightarrow> nat list \<Rightarrow> (int, nat list) dict" where
  "project n newTrans = fold (project_step n newTrans) (rev newTrans) []"

text \<open>
  The support of an itemset in the input: the number of transactions that contain it.
\<close>

definition support :: "'a list list \<Rightarrow> 'a set \<Rightarrow> int" where
  "support db S = int (length (filter (\<lambda>t. S \<subseteq> set t) db))"

text \<open>
  The list of frequent items in rank order that \<open>startMine\<close> computes for a numeric
  threshold, and the sorted ranks of a transaction.
\<close>

definition ranking :: "rat \<Rightarrow> string list list \<Rightarrow> string list" where
  "ranking thr rdd =
     map fst (sortBy_desc (filter (\<lambda>x. thr \<le> of_int (snd x))
       (reduceByKey_add (concat (map (\<lambda>trans. map (\<lambda>it. (it, 1)) trans) rdd)))))"

definition rank_of :: "string list \<Rightarrow> (string, nat) dict" where
  "rank_of fpl = dict_of (map (\<lambda>(index, it). (it, index)) (enumerate 0 fpl))"

definition newTrans_of :: "string list \<Rightarrow> string list \<Rightarrow> nat list" where
  "newTrans_of fpl transaction = sort (List.map_filter (map_of (rank_of fpl)) transaction)"

definition joinTab :: "string list \<Rightarrow> string" where
  "joinTab pattern = concat (map (\<lambda>it. it @ [CHR 0x09]) pattern)"

section \<open>Dictionaries\<close>

lemma map_of_dict_set: "map_of (dict_set d k v) = (map_of d)(k \<mapsto> v)"
  by (induction d k v rule: dict_set.induct) (auto simp: fun_eq_iff)

lemma keys_dict_set:
  "map fst (dict_set d k v) = (if k \<in> fst ` set d then map fst d else map fst d @ [k])"
  by (induction d k v rule: dict_set.induct) (auto simp: image_iff)

lemma distinct_dict_set: "distinct (map fst d) \<Longrightarrow> distinct (map fst (dict_set d k v))"
  by (simp add: keys_dict_set)

lemma set_dict_set: "set (dict_set d k v) \<subseteq> insert (k, v) (set d)"
  by (induction d k v rule: dict_set.induct) auto

lemma addItem_new:
  assumes "map_of (children (nodes T ! cur)) it = None"
  shows "nodes (fst (addItem t c it (T, cur))) =
           (nodes T)[cur := (nodes T ! cur)\<lparr>children := dict_set (children (nodes T ! cur)) it (length (nodes T))\<rparr>]
           @ [\<lparr>item = Some it, count_n = c, children = [], prefix = take (index_of t it) t\<rparr>]"
    and "root (fst (addItem t c it (T, cur))) = root T"
    and "nodeLink (fst (addItem t c it (T, cur))) = dict_set (nodeLink T) it (link T it @ [length (nodes T)])"
    and "itemCount (fst (addItem t c it (T, cur))) = dd_add (itemCount T) it c"
    and "snd (addItem t c it (T, cur)) = length (nodes T)"
  using assms
  by (simp_all add: addItem_def Let_def add_count_def addNodeToNodeLink_def new_Node_def link_def
      nth_append list_update_append split: option.splits)

lemma addItem_old:
  assumes "map_of (children (nodes T ! cur)) it = Some a"
  shows "nodes (fst (addItem t c it (T, cur))) =
           (nodes T)[a := (nodes T ! a)\<lparr>count_n := count_n (nodes T ! a) + c\<rparr>]"
    and "root (fst (addItem t c it (T, cur))) = root T"
    and "nodeLink (fst (addItem t c it (T, cur))) = nodeLink T"
    and "itemCount (fst (addItem t c it (T, cur))) = dd_add (itemCount T) it c"
    and "snd (addItem t c it (T, cur)) = a"
  using assms
  by (simp_all add: addItem_def Let_def add_count_def)

lemma wt_append: "wt (V @ [(p, c)]) q = wt V q + (if q = p then c else 0)"
  by (simp add: wt_def)

lemma wt_notin: "p \<notin> fst ` set V \<Longrightarrow> wt V p = 0"
proof -
  assume "p \<notin> fst ` set V"
  then have "filter (\<lambda>v. fst v = p) V = []"
    by (auto simp: filter_empty_conv)
  then show ?thesis by (simp add: wt_def)
qed

text \<open>The case where the child is missing.\<close>

lemma new_fresh:
  assumes "child_inv T pth" "cur < length (nodes T)"
    "map_of (children (nodes T ! cur)) it = None"
    "a < length (nodes T)"
  shows "pth a \<noteq> pth cur @ [it]"
proof
  assume "pth a = pth cur @ [it]"
  with assms(1,2,4) have "map_of (children (nodes T ! cur)) it = Some a"
    by (simp add: child_inv_def)
  with assms(3) show False by simp
qed

lemma new_nth:
  assumes "map_of (children (nodes T ! cur)) it = None" "b < length (nodes T)"
  shows "item (nodes (fst (addItem t c it (T, cur))) ! b) = item (nodes T ! b)"
    and "count_n (nodes (fst (addItem t c it (T, cur))) ! b) = count_n (nodes T ! b)"
    and "prefix (nodes (fst (addItem t c it (T, cur))) ! b) = prefix (nodes T ! b)"
    and "children (nodes (fst (addItem t c it (T, cur))) ! b) =
           (if b = cur then dict_set (children (nodes T ! cur)) it (length (nodes T))
            else children (nodes T ! b))"
  using assms by (cases "b = cur"; simp add: addItem_new(1) nth_append)+

lemma new_last:
  assumes "map_of (children (nodes T ! cur)) it = None"
  shows "nodes (fst (addItem t c it (T, cur))) ! length (nodes T) =
           \<lparr>item = Some it, count_n = c, children = [], prefix = take (index_of t it) t\<rparr>"
    and "length (nodes (fst (addItem t c it (T, cur)))) = Suc (length (nodes T))"
  using assms by (simp_all add: addItem_new(1) nth_append)

lemma new_store_inv:
  assumes "store_inv T V pth" "child_inv T pth" "cur < length (nodes T)"
    "map_of (children (nodes T ! cur)) it = None"
  shows "store_inv (fst (addItem t c it (T, cur))) (V @ [(pth cur @ [it], c)])
           (pth(length (nodes T) := pth cur @ [it]))"
proof -
  let ?n = "length (nodes T)" and ?p = "pth cur @ [it]"
  let ?T' = "fst (addItem t c it (T, cur))"
  have fresh: "\<And>z. z < ?n \<Longrightarrow> pth z \<noteq> ?p" using new_fresh[OF assms(2,3,4)] .
  have len: "length (nodes ?T') = Suc ?n" using new_last(2)[OF assms(4)] .
  have inj: "inj_on (pth(?n := ?p)) {..<Suc ?n}"
  proof (rule inj_onI)
    fix x y assume "x \<in> {..<Suc ?n}" "y \<in> {..<Suc ?n}" "(pth(?n := ?p)) x = (pth(?n := ?p)) y"
    moreover note fresh
    moreover have "inj_on pth {..<?n}" using assms(1) unfolding store_inv_def by simp
    ultimately show "x = y"
      by (cases "x = ?n"; cases "y = ?n") (auto simp: less_Suc_eq dest: inj_onD)
  qed
  have img: "(pth(?n := ?p)) ` {..<Suc ?n} = insert [] (fst ` set (V @ [(?p, c)]))"
  proof -
    have "(pth(?n := ?p)) ` {..<Suc ?n} = insert ?p (pth ` {..<?n})"
      by (auto simp: less_Suc_eq image_iff)
    then show ?thesis using assms(1) unfolding store_inv_def by auto
  qed
  have cur_in: "pth cur \<in> insert [] (fst ` set V)"
    using assms(1,3) unfolding store_inv_def by (metis imageI lessThan_iff)
  have closed: "\<forall>v\<in>set (V @ [(?p, c)]). fst v \<noteq> [] \<and>
      butlast (fst v) \<in> insert [] (fst ` set (V @ [(?p, c)]))"
    using assms(1) cur_in unfolding store_inv_def by auto
  have root0: "item (nodes ?T' ! 0) = None" "count_n (nodes ?T' ! 0) = 0" "prefix (nodes ?T' ! 0) = []"
    using assms(1) new_nth(1,2,3)[OF assms(4), of 0] unfolding store_inv_def by auto
  show ?thesis
    unfolding store_inv_def len
    using assms(1) inj img closed root0 addItem_new(2)[OF assms(4)]
    unfolding store_inv_def by auto
qed

lemma paths_in_store:
  assumes "store_inv T V pth" "v \<in> set V"
  shows "\<exists>a<length (nodes T). 0 < a \<and> pth a = fst v"
proof -
  from assms have "fst v \<in> pth ` {..<length (nodes T)}" "fst v \<noteq> []" "pth 0 = []"
    unfolding store_inv_def by auto
  then obtain a where "a < length (nodes T)" "pth a = fst v" by auto
  with \<open>fst v \<noteq> []\<close> \<open>pth 0 = []\<close> show ?thesis by (cases "a = 0") auto
qed

lemma new_node_inv:
  assumes "store_inv T V pth" "node_inv T V pth" "child_inv T pth" "cur < length (nodes T)"
    "map_of (children (nodes T ! cur)) it = None"
    "take (index_of t it) t = takeWhile (\<lambda>x. x \<noteq> it) (pth cur @ [it])"
  shows "node_inv (fst (addItem t c it (T, cur))) (V @ [(pth cur @ [it], c)])
           (pth(length (nodes T) := pth cur @ [it]))"
proof -
  let ?n = "length (nodes T)" and ?p = "pth cur @ [it]"
  let ?T' = "fst (addItem t c it (T, cur))"
  have fresh: "\<And>z. z < ?n \<Longrightarrow> pth z \<noteq> ?p" using new_fresh[OF assms(3,4,5)] .
  have "?p \<notin> fst ` set V"
    using paths_in_store[OF assms(1)] fresh by force
  then have w0: "wt V ?p = 0" by (rule wt_notin)
  show ?thesis
    unfolding node_inv_def new_last(2)[OF assms(5)]
  proof (intro allI impI)
    fix a assume a: "a < Suc ?n" "0 < a"
    show "item (nodes ?T' ! a) = Some (last ((pth(?n := ?p)) a)) \<and>
          prefix (nodes ?T' ! a) =
            takeWhile (\<lambda>x. x \<noteq> last ((pth(?n := ?p)) a)) ((pth(?n := ?p)) a) \<and>
          count_n (nodes ?T' ! a) = wt (V @ [(?p, c)]) ((pth(?n := ?p)) a)"
    proof (cases "a = ?n")
      case True
      then show ?thesis
        using new_last(1)[OF assms(5), of t c] assms(6) w0 by (simp add: wt_append)
    next
      case False
      with a have lt: "a < ?n" by simp
      from assms(2) lt a(2) have old:
        "item (nodes T ! a) = Some (last (pth a))"
        "prefix (nodes T ! a) = takeWhile (\<lambda>x. x \<noteq> last (pth a)) (pth a)"
        "count_n (nodes T ! a) = wt V (pth a)"
        unfolding node_inv_def by auto
      show ?thesis
        using False old fresh[OF lt] new_nth(1,2,3)[OF assms(5) lt, of t c]
        by (simp add: wt_append)
    qed
  qed
qed

lemma new_child_inv:
  assumes "store_inv T V pth" "child_inv T pth" "cur < length (nodes T)"
    "map_of (children (nodes T ! cur)) it = None"
  shows "child_inv (fst (addItem t c it (T, cur))) (pth(length (nodes T) := pth cur @ [it]))"
proof -
  let ?n = "length (nodes T)" and ?p = "pth cur @ [it]"
  let ?T' = "fst (addItem t c it (T, cur))"
  let ?pth' = "pth(?n := ?p)"
  have fresh: "\<And>z. z < ?n \<Longrightarrow> pth z \<noteq> ?p" using new_fresh[OF assms(2,3,4)] .
  have inj: "inj_on pth {..<?n}" using assms(1) unfolding store_inv_def by simp
  have img: "pth ` {..<?n} = insert [] (fst ` set V)" using assms(1) unfolding store_inv_def by simp
  have closed: "\<And>z r. z < ?n \<Longrightarrow> pth z \<noteq> ?p @ [r]"
  proof
    fix z r assume z: "z < ?n" "pth z = ?p @ [r]"
    then have "pth z \<in> insert [] (fst ` set V)" using img by blast
    with z(2) obtain v where "v \<in> set V" "fst v = ?p @ [r]" by auto
    with assms(1) have "butlast (?p @ [r]) \<in> insert [] (fst ` set V)"
      unfolding store_inv_def by metis
    then have "?p \<in> pth ` {..<?n}" using img by (simp only: butlast_snoc)
    then obtain y where "y < ?n" "pth y = ?p" by auto
    then show False using fresh by blast
  qed
  show ?thesis
    unfolding child_inv_def new_last(2)[OF assms(4)]
  proof (intro allI impI)
    fix m r a assume m: "m < Suc ?n"
    show "(map_of (children (nodes ?T' ! m)) r = Some a) =
          (a < Suc ?n \<and> ?pth' a = ?pth' m @ [r])"
    proof (cases "m = ?n")
      case True
      have "\<not> (a < Suc ?n \<and> ?pth' a = ?p @ [r])"
        using closed[of a r] by (cases "a = ?n") (auto simp: less_Suc_eq)
      then show ?thesis using True new_last(1)[OF assms(4), of t c] by simp
    next
      case False
      with m have lt: "m < ?n" by simp
      from assms(2) lt have old: "\<And>r a. (map_of (children (nodes T ! m)) r = Some a) =
          (a < ?n \<and> pth a = pth m @ [r])" unfolding child_inv_def by simp
      show ?thesis
      proof (cases "m = cur")
        case True
        show ?thesis
        proof (cases "r = it")
          case True
          then show ?thesis
            using \<open>m = cur\<close> lt new_nth(4)[OF assms(4) lt, of t c] fresh[of a]
            by (cases "a = ?n") (auto simp: map_of_dict_set less_Suc_eq)
        next
          case False
          then show ?thesis
            using \<open>m = cur\<close> lt new_nth(4)[OF assms(4) lt, of t c] old[of r a]
            by (cases "a = ?n") (auto simp: map_of_dict_set less_Suc_eq)
        qed
      next
        case False
        have "pth m \<noteq> pth cur" using False lt assms(3) inj by (auto dest: inj_onD)
        then show ?thesis
          using False lt new_nth(4)[OF assms(4) lt, of t c] old[of r a]
          by (cases "a = ?n") (auto simp: less_Suc_eq)
      qed
    qed
  qed
qed

lemma map_of_dd_add:
  "map_of (dd_add d k c) = (map_of d)(k \<mapsto> (case map_of d k of None \<Rightarrow> 0 | Some v \<Rightarrow> v) + c)"
  by (simp add: dd_add_def map_of_dict_set)

lemma count_inv_step:
  assumes "count_inv T V" "itemCount T' = dd_add (itemCount T) it c" "last p = it"
  shows "count_inv T' (V @ [(p, c)])"
proof -
  from assms(1) have d: "distinct (map fst (itemCount T))"
    and m: "\<And>r. map_of (itemCount T) r =
          (if \<exists>v\<in>set V. last (fst v) = r
           then Some (\<Sum>v\<leftarrow>filter (\<lambda>v. last (fst v) = r) V. snd v) else None)"
    unfolding count_inv_def by auto
  have "distinct (map fst (itemCount T'))"
    using d by (simp add: assms(2) dd_add_def distinct_dict_set)
  moreover have "map_of (itemCount T') r =
          (if \<exists>v\<in>set (V @ [(p, c)]). last (fst v) = r
           then Some (\<Sum>v\<leftarrow>filter (\<lambda>v. last (fst v) = r) (V @ [(p, c)]). snd v) else None)" for r
  proof (cases "r = it")
    case True
    show ?thesis
    proof (cases "\<exists>v\<in>set V. last (fst v) = it")
      case True
      with m[of it] \<open>r = it\<close> assms(3) show ?thesis
        by (simp add: assms(2) map_of_dd_add)
    next
      case False
      then have "filter (\<lambda>v. last (fst v) = it) V = []" by (auto simp: filter_empty_conv)
      with False m[of it] \<open>r = it\<close> assms(3) show ?thesis
        by (simp add: assms(2) map_of_dd_add)
    qed
  next
    case False
    with m[of r] assms(3) show ?thesis by (simp add: assms(2) map_of_dd_add)
  qed
  ultimately show ?thesis unfolding count_inv_def by blast
qed

lemma new_link:
  assumes "map_of (children (nodes T ! cur)) it = None"
  shows "link (fst (addItem t c it (T, cur))) r =
           (if r = it then link T it @ [length (nodes T)] else link T r)"
  by (simp add: link_def addItem_new(3)[OF assms] map_of_dict_set)

lemma new_link_inv:
  assumes "store_inv T V pth" "link_inv T V pth" "cur < length (nodes T)"
    "map_of (children (nodes T ! cur)) it = None"
  shows "link_inv (fst (addItem t c it (T, cur))) (V @ [(pth cur @ [it], c)])
           (pth(length (nodes T) := pth cur @ [it]))"
proof -
  let ?n = "length (nodes T)" and ?p = "pth cur @ [it]"
  let ?T' = "fst (addItem t c it (T, cur))"
  let ?pth' = "pth(?n := ?p)"
  from assms(2) have dk: "distinct (map fst (nodeLink T))"
    and dl: "\<And>r. distinct (link T r)"
    and sl: "\<And>r. set (link T r) = {a. 0 < a \<and> a < ?n \<and> last (pth a) = r}"
    and hk: "\<And>r. (map_of (nodeLink T) r \<noteq> None) = (\<exists>v\<in>set V. last (fst v) = r)"
    unfolding link_inv_def by blast+
  have n0: "0 < ?n" using assms(1) unfolding store_inv_def by simp
  have 1: "distinct (map fst (nodeLink ?T'))"
    using dk by (simp add: addItem_new(3)[OF assms(4)] distinct_dict_set)
  have 2: "distinct (link ?T' r)" for r
    using dl[of r] dl[of it] sl[of it] by (simp add: new_link[OF assms(4)])
  have 3: "set (link ?T' r) = {a. 0 < a \<and> a < Suc ?n \<and> last (?pth' a) = r}" for r
  proof (cases "r = it")
    case True
    have "{a. 0 < a \<and> a < Suc ?n \<and> last (?pth' a) = it} =
          insert ?n {a. 0 < a \<and> a < ?n \<and> last (pth a) = it}"
      using n0 by (auto simp: less_Suc_eq)
    then show ?thesis using True sl[of it] by (simp add: new_link[OF assms(4)])
  next
    case False
    have "{a. 0 < a \<and> a < Suc ?n \<and> last (?pth' a) = r} =
          {a. 0 < a \<and> a < ?n \<and> last (pth a) = r}"
      using False by (auto simp: less_Suc_eq)
    then show ?thesis using False sl[of r] by (simp add: new_link[OF assms(4)])
  qed
  have 4: "(map_of (nodeLink ?T') r \<noteq> None) = (\<exists>v\<in>set (V @ [(?p, c)]). last (fst v) = r)" for r
    using hk[of r] by (auto simp: addItem_new(3)[OF assms(4)] map_of_dict_set)
  show ?thesis
    unfolding link_inv_def new_last(2)[OF assms(4)] using 1 2 3 4 by blast
qed

lemma new_sum_inv:
  assumes "store_inv T V pth" "link_inv T V pth" "sum_inv T V" "cur < length (nodes T)"
    "map_of (children (nodes T ! cur)) it = None"
    "take (index_of t it) t = takeWhile (\<lambda>x. x \<noteq> it) (pth cur @ [it])"
  shows "sum_inv (fst (addItem t c it (T, cur))) (V @ [(pth cur @ [it], c)])"
proof -
  let ?n = "length (nodes T)" and ?p = "pth cur @ [it]"
  let ?T' = "fst (addItem t c it (T, cur))"
  from assms(2) have sl: "\<And>r. set (link T r) = {a. 0 < a \<and> a < ?n \<and> last (pth a) = r}"
    unfolding link_inv_def by auto
  have same: "(\<Sum>a\<leftarrow>filter (\<lambda>a. P (prefix (nodes ?T' ! a))) (link T r). count_n (nodes ?T' ! a)) =
              (\<Sum>a\<leftarrow>filter (\<lambda>a. P (prefix (nodes T ! a))) (link T r). count_n (nodes T ! a))" for r P
  proof -
    have lt: "\<And>a. a \<in> set (link T r) \<Longrightarrow> a < ?n" using sl[of r] by auto
    have A: "filter (\<lambda>a. P (prefix (nodes ?T' ! a))) (link T r) =
          filter (\<lambda>a. P (prefix (nodes T ! a))) (link T r)"
      by (rule filter_cong) (auto simp: new_nth(3)[OF assms(5) lt])
    have B: "map (\<lambda>a. count_n (nodes ?T' ! a)) (filter (\<lambda>a. P (prefix (nodes T ! a))) (link T r)) =
          map (\<lambda>a. count_n (nodes T ! a)) (filter (\<lambda>a. P (prefix (nodes T ! a))) (link T r))"
      by (rule map_cong) (auto simp: new_nth(2)[OF assms(5) lt])
    show ?thesis unfolding A B ..
  qed
  from assms(3) have old: "\<And>r P. (\<Sum>a\<leftarrow>filter (\<lambda>a. P (prefix (nodes T ! a))) (link T r). count_n (nodes T ! a)) =
            (\<Sum>v\<leftarrow>filter (\<lambda>v. last (fst v) = r \<and> P (takeWhile (\<lambda>x. x \<noteq> r) (fst v))) V. snd v)"
    unfolding sum_inv_def by blast
  show ?thesis
    unfolding sum_inv_def
  proof (intro allI)
    fix r P
    show "(\<Sum>a\<leftarrow>filter (\<lambda>a. P (prefix (nodes ?T' ! a))) (link ?T' r). count_n (nodes ?T' ! a)) =
          (\<Sum>v\<leftarrow>filter (\<lambda>v. last (fst v) = r \<and> P (takeWhile (\<lambda>x. x \<noteq> r) (fst v)))
                (V @ [(?p, c)]). snd v)"
    proof (cases "r = it")
      case True
      then show ?thesis
        using same[of P it] old[of P it] new_last(1)[OF assms(5), of t c] assms(6)
        by (simp add: new_link[OF assms(5)])
    next
      case False
      then show ?thesis
        using same[of P r] old[of P r] by (simp add: new_link[OF assms(5)])
    qed
  qed
qed

text \<open>The case where the child exists.\<close>

lemma old_nth:
  assumes "map_of (children (nodes T ! cur)) it = Some a" "b < length (nodes T)"
  shows "item (nodes (fst (addItem t c it (T, cur))) ! b) = item (nodes T ! b)"
    and "count_n (nodes (fst (addItem t c it (T, cur))) ! b) =
           count_n (nodes T ! b) + (if b = a then c else 0)"
    and "prefix (nodes (fst (addItem t c it (T, cur))) ! b) = prefix (nodes T ! b)"
    and "children (nodes (fst (addItem t c it (T, cur))) ! b) = children (nodes T ! b)"
    and "length (nodes (fst (addItem t c it (T, cur)))) = length (nodes T)"
  using assms by (cases "b = a"; simp add: addItem_old(1))+

lemma old_child:
  assumes "store_inv T V pth" "child_inv T pth" "cur < length (nodes T)"
    "map_of (children (nodes T ! cur)) it = Some a"
  shows "a < length (nodes T)" "pth a = pth cur @ [it]" "0 < a" "pth cur @ [it] \<in> fst ` set V"
proof -
  from assms(2,3,4) show 1: "a < length (nodes T)" and 2: "pth a = pth cur @ [it]"
    unfolding child_inv_def by auto
  from assms(1) have "pth 0 = []" unfolding store_inv_def by simp
  with 2 show "0 < a" by (cases "a = 0") auto
  from assms(1) 1 have "pth a \<in> insert [] (fst ` set V)" unfolding store_inv_def by blast
  with 2 show "pth cur @ [it] \<in> fst ` set V" by simp
qed

lemma old_store_inv:
  assumes "store_inv T V pth" "child_inv T pth" "cur < length (nodes T)"
    "map_of (children (nodes T ! cur)) it = Some a"
  shows "store_inv (fst (addItem t c it (T, cur))) (V @ [(pth cur @ [it], c)]) pth"
proof -
  let ?n = "length (nodes T)" and ?p = "pth cur @ [it]"
  let ?T' = "fst (addItem t c it (T, cur))"
  note oc = old_child[OF assms]
  have n0: "0 < ?n" using assms(1) unfolding store_inv_def by simp
  have cur_in: "pth cur \<in> insert [] (fst ` set V)"
    using assms(1,3) unfolding store_inv_def by blast
  have img: "insert [] (fst ` set (V @ [(?p, c)])) = insert [] (fst ` set V)"
    using oc(4) by auto
  have closed: "\<forall>v\<in>set (V @ [(?p, c)]). fst v \<noteq> [] \<and>
      butlast (fst v) \<in> insert [] (fst ` set V)"
    using assms(1) cur_in unfolding store_inv_def by auto
  have root0: "item (nodes ?T' ! 0) = item (nodes T ! 0)"
    "count_n (nodes ?T' ! 0) = count_n (nodes T ! 0)" "prefix (nodes ?T' ! 0) = prefix (nodes T ! 0)"
    using old_nth(1,2,3)[OF assms(4) n0, of t c] oc(3) by auto
  show ?thesis
    unfolding store_inv_def old_nth(5)[OF assms(4) assms(3)] img root0
      addItem_old(2)[OF assms(4)]
    using assms(1) closed unfolding store_inv_def by blast
qed

lemma old_node_inv:
  assumes "store_inv T V pth" "node_inv T V pth" "child_inv T pth" "cur < length (nodes T)"
    "map_of (children (nodes T ! cur)) it = Some a"
  shows "node_inv (fst (addItem t c it (T, cur))) (V @ [(pth cur @ [it], c)]) pth"
proof -
  let ?n = "length (nodes T)" and ?p = "pth cur @ [it]"
  let ?T' = "fst (addItem t c it (T, cur))"
  note oc = old_child[OF assms(1,3,4,5)]
  have inj: "inj_on pth {..<?n}" using assms(1) unfolding store_inv_def by simp
  show ?thesis
    unfolding node_inv_def old_nth(5)[OF assms(5) assms(4)]
  proof (intro allI impI)
    fix b assume b: "b < ?n" "0 < b"
    from assms(2) b have old:
      "item (nodes T ! b) = Some (last (pth b))"
      "prefix (nodes T ! b) = takeWhile (\<lambda>x. x \<noteq> last (pth b)) (pth b)"
      "count_n (nodes T ! b) = wt V (pth b)"
      unfolding node_inv_def by auto
    have "(pth b = ?p) = (b = a)"
      using inj b(1) oc(1,2) by (metis inj_onD lessThan_iff)
    then show "item (nodes ?T' ! b) = Some (last (pth b)) \<and>
          prefix (nodes ?T' ! b) = takeWhile (\<lambda>x. x \<noteq> last (pth b)) (pth b) \<and>
          count_n (nodes ?T' ! b) = wt (V @ [(?p, c)]) (pth b)"
      using old old_nth(1,2,3)[OF assms(5) b(1), of t c] by (simp add: wt_append)
  qed
qed

lemma old_child_inv:
  assumes "child_inv T pth" "cur < length (nodes T)"
    "map_of (children (nodes T ! cur)) it = Some a"
  shows "child_inv (fst (addItem t c it (T, cur))) pth"
  using assms(1) unfolding child_inv_def old_nth(5)[OF assms(3) assms(2)]
  by (simp add: old_nth(4)[OF assms(3)])

lemma old_link: 
  assumes "map_of (children (nodes T ! cur)) it = Some a"
  shows "link (fst (addItem t c it (T, cur))) r = link T r"
  by (simp add: link_def addItem_old(3)[OF assms])

lemma old_link_inv:
  assumes "store_inv T V pth" "child_inv T pth" "link_inv T V pth" "cur < length (nodes T)"
    "map_of (children (nodes T ! cur)) it = Some a"
  shows "link_inv (fst (addItem t c it (T, cur))) (V @ [(pth cur @ [it], c)]) pth"
proof -
  note oc = old_child[OF assms(1,2,4,5)]
  from oc(4) obtain v where "v \<in> set V" "fst v = pth cur @ [it]" by auto
  then have ex: "\<exists>v\<in>set V. last (fst v) = it" by force
  have E: "(\<exists>v\<in>set (V @ [(pth cur @ [it], c)]). last (fst v) = r) = (\<exists>v\<in>set V. last (fst v) = r)" for r
    using ex by auto
  show ?thesis
    unfolding link_inv_def old_nth(5)[OF assms(5) assms(4)] old_link[OF assms(5)]
      addItem_old(3)[OF assms(5)] E
    using assms(3) unfolding link_inv_def by blast
qed

lemma sum_list_bump:
  "distinct xs \<Longrightarrow>
   (\<Sum>x\<leftarrow>filter Q xs. f x + (if x = a then c else 0)) =
   (\<Sum>x\<leftarrow>filter Q xs. f x) + (if a \<in> set xs \<and> Q a then (c::int) else 0)"
  by (induction xs) auto

lemma old_sum_inv:
  assumes "store_inv T V pth" "node_inv T V pth" "child_inv T pth" "link_inv T V pth"
    "sum_inv T V" "cur < length (nodes T)"
    "map_of (children (nodes T ! cur)) it = Some a"
  shows "sum_inv (fst (addItem t c it (T, cur))) (V @ [(pth cur @ [it], c)])"
proof -
  let ?n = "length (nodes T)" and ?p = "pth cur @ [it]"
  let ?T' = "fst (addItem t c it (T, cur))"
  note oc = old_child[OF assms(1,3,6,7)]
  from assms(4) have sl: "\<And>r. set (link T r) = {a. 0 < a \<and> a < ?n \<and> last (pth a) = r}"
    and dl: "\<And>r. distinct (link T r)"
    unfolding link_inv_def by blast+
  from assms(2) oc have pa: "prefix (nodes T ! a) = takeWhile (\<lambda>x. x \<noteq> it) ?p"
    unfolding node_inv_def by simp
  from assms(5) have old: "\<And>r P. (\<Sum>a\<leftarrow>filter (\<lambda>a. P (prefix (nodes T ! a))) (link T r). count_n (nodes T ! a)) =
            (\<Sum>v\<leftarrow>filter (\<lambda>v. last (fst v) = r \<and> P (takeWhile (\<lambda>x. x \<noteq> r) (fst v))) V. snd v)"
    unfolding sum_inv_def by blast
  have step: "(\<Sum>b\<leftarrow>filter (\<lambda>a. P (prefix (nodes ?T' ! a))) (link T r). count_n (nodes ?T' ! b)) =
              (\<Sum>b\<leftarrow>filter (\<lambda>a. P (prefix (nodes T ! a))) (link T r). count_n (nodes T ! b))
              + (if a \<in> set (link T r) \<and> P (prefix (nodes T ! a)) then c else 0)" for r P
  proof -
    have lt: "\<And>a. a \<in> set (link T r) \<Longrightarrow> a < ?n" using sl[of r] by auto
    have A: "filter (\<lambda>a. P (prefix (nodes ?T' ! a))) (link T r) =
          filter (\<lambda>a. P (prefix (nodes T ! a))) (link T r)"
      by (rule filter_cong) (auto simp: old_nth(3)[OF assms(7) lt])
    have B: "map (\<lambda>b. count_n (nodes ?T' ! b)) (filter (\<lambda>a. P (prefix (nodes T ! a))) (link T r)) =
          map (\<lambda>b. count_n (nodes T ! b) + (if b = a then c else 0))
            (filter (\<lambda>a. P (prefix (nodes T ! a))) (link T r))"
      by (rule map_cong) (auto simp: old_nth(2)[OF assms(7) lt])
    show ?thesis unfolding A B by (rule sum_list_bump[OF dl])
  qed
  have mem: "(a \<in> set (link T r)) = (r = it)" for r
    using sl[of r] oc by auto
  show ?thesis
    unfolding sum_inv_def old_link[OF assms(7)]
  proof (intro allI)
    fix r P
    show "(\<Sum>a\<leftarrow>filter (\<lambda>a. P (prefix (nodes ?T' ! a))) (link T r). count_n (nodes ?T' ! a)) =
          (\<Sum>v\<leftarrow>filter (\<lambda>v. last (fst v) = r \<and> P (takeWhile (\<lambda>x. x \<noteq> r) (fst v)))
                (V @ [(?p, c)]). snd v)"
      unfolding step[of P r] old[of P r] mem pa by auto
  qed
qed

lemma addItem_inv:
  assumes "tree_inv T V pth" "cur < length (nodes T)"
    "take (index_of t it) t = takeWhile (\<lambda>x. x \<noteq> it) (pth cur @ [it])"
  shows "\<exists>pth'. tree_inv (fst (addItem t c it (T, cur))) (V @ [(pth cur @ [it], c)]) pth' \<and>
           snd (addItem t c it (T, cur)) < length (nodes (fst (addItem t c it (T, cur)))) \<and>
           pth' (snd (addItem t c it (T, cur))) = pth cur @ [it] \<and>
           length (nodes T) \<le> length (nodes (fst (addItem t c it (T, cur)))) \<and>
           (\<forall>b<length (nodes T). pth' b = pth b)"
proof (cases "map_of (children (nodes T ! cur)) it")
  case None
  from assms(1) have i: "store_inv T V pth" "node_inv T V pth" "child_inv T pth"
    "link_inv T V pth" "count_inv T V" "sum_inv T V" unfolding tree_inv_def by auto
  let ?pth' = "pth(length (nodes T) := pth cur @ [it])"
  have "tree_inv (fst (addItem t c it (T, cur))) (V @ [(pth cur @ [it], c)]) ?pth'"
    unfolding tree_inv_def
    using new_store_inv[OF i(1,3) assms(2) None] new_node_inv[OF i(1,2,3) assms(2) None assms(3)]
      new_child_inv[OF i(1,3) assms(2) None] new_link_inv[OF i(1,4) assms(2) None]
      count_inv_step[OF i(5) addItem_new(4)[OF None], of "pth cur @ [it]" t c]
      new_sum_inv[OF i(1,4,6) assms(2) None assms(3)]
    by simp
  then show ?thesis
    using addItem_new(5)[OF None, of t c] new_last(2)[OF None, of t c]
    by (intro exI[of _ ?pth']) simp
next
  case (Some a)
  from assms(1) have i: "store_inv T V pth" "node_inv T V pth" "child_inv T pth"
    "link_inv T V pth" "count_inv T V" "sum_inv T V" unfolding tree_inv_def by auto
  note oc = old_child[OF i(1,3) assms(2) Some]
  have "tree_inv (fst (addItem t c it (T, cur))) (V @ [(pth cur @ [it], c)]) pth"
    unfolding tree_inv_def
    using old_store_inv[OF i(1,3) assms(2) Some] old_node_inv[OF i(1,2,3) assms(2) Some]
      old_child_inv[OF i(3) assms(2) Some] old_link_inv[OF i(1,3,4) assms(2) Some]
      count_inv_step[OF i(5) addItem_old(4)[OF Some], of "pth cur @ [it]" t c]
      old_sum_inv[OF i(1,2,3,4,6) assms(2) Some]
    by simp
  then show ?thesis
    using addItem_old(5)[OF Some, of t c] old_nth(5)[OF Some assms(2), of t c] oc
    by (intro exI[of _ pth]) simp
qed

lemma prefix_index:
  "take (index_of (ys @ z # zs) z) (ys @ z # zs) = takeWhile (\<lambda>x. x \<noteq> z) (ys @ [z])"
proof -
  have "takeWhile (\<lambda>x. x \<noteq> z) (ys @ z # zs) = takeWhile (\<lambda>x. x \<noteq> z) (ys @ [z])"
    by (simp add: takeWhile_tail)
  then show ?thesis
    unfolding index_of_def by (metis takeWhile_eq_take)
qed

lemma fold_addItem_inv:
  assumes "tree_inv T V pth" "cur < length (nodes T)" "pth cur = ys" "t = ys @ zs"
  shows "\<exists>pth'. tree_inv (fst (fold (addItem t c) zs (T, cur))) (V @ visits_from (length ys) t c) pth' \<and>
           length (nodes T) \<le> length (nodes (fst (fold (addItem t c) zs (T, cur)))) \<and>
           (\<forall>b<length (nodes T). pth' b = pth b)"
  using assms
proof (induction zs arbitrary: T V pth cur ys)
  case Nil
  then show ?case by (auto simp: visits_from_def)
next
  case (Cons z zs)
  let ?s = "addItem t c z (T, cur)"
  have pre: "take (index_of t z) t = takeWhile (\<lambda>x. x \<noteq> z) (pth cur @ [z])"
    using Cons.prems(3,4) prefix_index[of ys z zs] by simp
  from addItem_inv[OF Cons.prems(1,2) pre, of c]
  obtain pth1 where 1: "tree_inv (fst ?s) (V @ [(pth cur @ [z], c)]) pth1"
    "snd ?s < length (nodes (fst ?s))" "pth1 (snd ?s) = pth cur @ [z]"
    "length (nodes T) \<le> length (nodes (fst ?s))" "\<forall>b<length (nodes T). pth1 b = pth b"
    by blast
  have t': "t = (ys @ [z]) @ zs" using Cons.prems(4) by simp
  have p': "pth1 (snd ?s) = ys @ [z]" using 1(3) Cons.prems(3) by simp
  from Cons.IH[OF 1(1) 1(2) p' t', of ]
  obtain pth2 where 2:
    "tree_inv (fst (fold (addItem t c) zs (fst ?s, snd ?s)))
       ((V @ [(pth cur @ [z], c)]) @ visits_from (length (ys @ [z])) t c) pth2"
    "length (nodes (fst ?s)) \<le> length (nodes (fst (fold (addItem t c) zs (fst ?s, snd ?s))))"
    "\<forall>b<length (nodes (fst ?s)). pth2 b = pth1 b"
    by blast
  have tk: "take (Suc (length ys)) t = ys @ [z]" using Cons.prems(4) by simp
  have "length ys < length t" using Cons.prems(4) by simp
  then have "[length ys..<length t] = length ys # [Suc (length ys)..<length t]"
    by (rule upt_conv_Cons)
  then have v: "visits_from (length ys) t c = (pth cur @ [z], c) # visits_from (length (ys @ [z])) t c"
    using tk Cons.prems(3) by (simp add: visits_from_def)
  show ?case
    using 1(4,5) 2 unfolding v
    by (intro exI[of _ pth2]) auto
qed

lemma addTransaction_inv:
  assumes "tree_inv T V pth"
  shows "\<exists>pth'. tree_inv (addTransaction T t c) (V @ visits t c) pth' \<and>
           length (nodes T) \<le> length (nodes (addTransaction T t c)) \<and>
           (\<forall>b<length (nodes T). pth' b = pth b)"
proof -
  from assms have r: "root T < length (nodes T)" "pth (root T) = []"
    unfolding tree_inv_def store_inv_def by auto
  from fold_addItem_inv[OF assms r, of t t c]
  show ?thesis
    unfolding addTransaction_def visits_def visits_from_def by simp
qed

lemma new_Tree_inv: "tree_inv new_Tree [] (\<lambda>_. [])"
  unfolding tree_inv_def store_inv_def node_inv_def child_inv_def link_inv_def count_inv_def
    sum_inv_def
  by (auto simp: new_Tree_def new_Node_def link_def inj_on_def)

lemma keys_dict_set': "fst ` set (dict_set d k v) = insert k (fst ` set d)"
  by (induction d k v rule: dict_set.induct) auto

lemma dict_update_Cons: "dict_update d (kv # e) = dict_update (dict_set d (fst kv) (snd kv)) e"
  by (simp add: dict_update_def case_prod_beta)

lemma dict_update_Nil: "dict_update d [] = d"
  by (simp add: dict_update_def)

lemma keys_dict_update: "fst ` set (dict_update d e) = fst ` set d \<union> fst ` set e"
  by (induction e arbitrary: d) (auto simp: dict_update_Nil dict_update_Cons keys_dict_set')

lemma set_dict_update: "set (dict_update d e) \<subseteq> set d \<union> set e"
proof (induction e arbitrary: d)
  case Nil
  then show ?case by (simp add: dict_update_Nil)
next
  case (Cons kv e)
  have "set (dict_update (dict_set d (fst kv) (snd kv)) e) \<subseteq> set (dict_set d (fst kv) (snd kv)) \<union> set e"
    by (rule Cons.IH)
  also have "\<dots> \<subseteq> insert kv (set d) \<union> set e"
    using set_dict_set[of d "fst kv" "snd kv"] by auto
  finally show ?case by (auto simp: dict_update_Cons)
qed

lemma distinct_dict_update: "distinct (map fst d) \<Longrightarrow> distinct (map fst (dict_update d e))"
  by (induction e arbitrary: d) (auto simp: dict_update_Nil dict_update_Cons distinct_dict_set)

lemma map_of_dict_update: "map_of (dict_update d e) = map_of d ++ map_of (rev e)"
proof (induction e arbitrary: d)
  case Nil
  then show ?case by (simp add: dict_update_Nil)
next
  case (Cons kv e)
  have "map_of (dict_update d (kv # e)) = map_of (dict_set d (fst kv) (snd kv)) ++ map_of (rev e)"
    by (simp only: dict_update_Cons Cons.IH)
  then show ?case
    by (cases kv) (auto simp: map_of_dict_set fun_eq_iff map_add_def split: option.splits)
qed

section \<open>Trees built by insertion, and termination of the mining recursion\<close>

lemma insert_all_inv:
  assumes "tree_inv T V pth"
  shows "\<exists>pth'. tree_inv (insert_all D T) (V @ all_visits D) pth' \<and>
           length (nodes T) \<le> length (nodes (insert_all D T)) \<and>
           (\<forall>b<length (nodes T). pth' b = pth b)"
  using assms
proof (induction D arbitrary: T V pth)
  case Nil
  then show ?case by (auto simp: insert_all_def all_visits_def)
next
  case (Cons tc D)
  from addTransaction_inv[OF Cons.prems, of "fst tc" "snd tc"]
  obtain pth1 where 1: "tree_inv (addTransaction T (fst tc) (snd tc)) (V @ visits (fst tc) (snd tc)) pth1"
    "length (nodes T) \<le> length (nodes (addTransaction T (fst tc) (snd tc)))"
    "\<forall>b<length (nodes T). pth1 b = pth b" by blast
  from Cons.IH[OF 1(1)]
  obtain pth2 where 2:
    "tree_inv (insert_all D (addTransaction T (fst tc) (snd tc)))
       ((V @ visits (fst tc) (snd tc)) @ all_visits D) pth2"
    "length (nodes (addTransaction T (fst tc) (snd tc)))
       \<le> length (nodes (insert_all D (addTransaction T (fst tc) (snd tc))))"
    "\<forall>b<length (nodes (addTransaction T (fst tc) (snd tc))). pth2 b = pth1 b" by blast
  have e: "insert_all (tc # D) T = insert_all D (addTransaction T (fst tc) (snd tc))"
    by (simp add: insert_all_def)
  have v: "all_visits (tc # D) = visits (fst tc) (snd tc) @ all_visits D"
    by (simp add: all_visits_def)
  show ?case unfolding e v using 1(2,3) 2 by (intro exI[of _ pth2]) auto
qed

lemma built_inv: "\<exists>pth. tree_inv (insert_all D new_Tree) (all_visits D) pth"
  using insert_all_inv[OF new_Tree_inv, of D] by auto

lemma generateConditionalTree_eq:
  "generateConditionalTree T r =
     (if dict_has (nodeLink T) r then Inr (insert_all (patternBase T r) new_Tree) else Inl KeyError)"
  by (auto simp: generateConditionalTree_def dict_has_def patternBase_def link_def insert_all_def
      fold_map comp_def split: option.splits)

lemma buildTree_eq: "buildTree tr data = insert_all (map (\<lambda>t. (t, 1)) data) tr"
  by (simp add: buildTree_def insert_all_def fold_map comp_def)

lemma visit_length:
  assumes "v \<in> set (all_visits D)"
  shows "\<exists>tc\<in>set D. fst v \<noteq> [] \<and> length (fst v) \<le> length (fst tc)"
proof -
  from assms obtain tc where tc: "tc \<in> set D" "v \<in> set (visits (fst tc) (snd tc))"
    by (auto simp: all_visits_def)
  then obtain j where "j < length (fst tc)" "v = (take (Suc j) (fst tc), snd tc)"
    by (auto simp: visits_def)
  then have "fst v \<noteq> []" "length (fst v) \<le> length (fst tc)" by (cases "fst tc"; simp)+
  with tc(1) show ?thesis by blast
qed

lemma length_takeWhile_less:
  "x \<in> set xs \<Longrightarrow> \<not> P x \<Longrightarrow> length (takeWhile P xs) < length xs"
  by (induction xs) auto

lemma store_path_visited:
  assumes "store_inv T V pth" "0 < a" "a < length (nodes T)"
  shows "pth a \<in> fst ` set V" "pth a \<noteq> []"
proof -
  from assms have 1: "pth a \<in> insert [] (fst ` set V)" and 2: "pth 0 = []"
    and 3: "inj_on pth {..<length (nodes T)}"
    unfolding store_inv_def by blast+
  have "pth a \<noteq> pth 0"
  proof
    assume "pth a = pth 0"
    with 3 assms(2,3) have "a = 0" by (auto dest!: inj_onD)
    with assms(2) show False by simp
  qed
  with 2 show "pth a \<noteq> []" by simp
  with 1 show "pth a \<in> fst ` set V" by simp
qed

lemma link_height_built:
  assumes "\<forall>tc\<in>set D. length (fst tc) \<le> b"
  shows "link_height (insert_all D new_Tree) \<le> b"
proof (cases "nodeLink (insert_all D new_Tree) = []")
  case True
  then show ?thesis by (simp add: link_height_def)
next
  case False
  let ?C = "insert_all D new_Tree"
  obtain pth where inv: "tree_inv ?C (all_visits D) pth" using built_inv by blast
  then have st: "store_inv ?C (all_visits D) pth" and nd: "node_inv ?C (all_visits D) pth"
    and lk: "link_inv ?C (all_visits D) pth" unfolding tree_inv_def by auto
  have bound: "length (prefix (nodes ?C ! a)) < b"
    if a: "a \<in> set (concat (map snd (nodeLink ?C)))" for a
  proof -
    from a obtain r as where ras: "(r, as) \<in> set (nodeLink ?C)" "a \<in> set as" by auto
    from lk have dk: "distinct (map fst (nodeLink ?C))" unfolding link_inv_def by blast
    with ras(1) have "map_of (nodeLink ?C) r = Some as" by simp
    with ras(2) have "a \<in> set (link ?C r)" by (simp add: link_def)
    with lk have a': "0 < a" "a < length (nodes ?C)" unfolding link_inv_def by auto
    with nd have p: "prefix (nodes ?C ! a) = takeWhile (\<lambda>x. x \<noteq> last (pth a)) (pth a)"
      unfolding node_inv_def by blast
    from store_path_visited[OF st a'] have ne: "pth a \<noteq> []"
      and "pth a \<in> fst ` set (all_visits D)" by simp_all
    then obtain v where v: "v \<in> set (all_visits D)" "fst v = pth a" by auto
    from visit_length[OF v(1)] obtain tc where "tc \<in> set D" "length (fst v) \<le> length (fst tc)"
      by blast
    with assms v(2) have le: "length (pth a) \<le> b" by force
    have "last (pth a) \<in> set (pth a)" using ne by simp
    then have "length (takeWhile (\<lambda>x. x \<noteq> last (pth a)) (pth a)) < length (pth a)"
      by (rule length_takeWhile_less) simp
    with p le show ?thesis by simp
  qed
  from False obtain r as where ras: "(r, as) \<in> set (nodeLink ?C)" by (cases "nodeLink ?C") auto
  then have "map_of (nodeLink ?C) r \<noteq> None"
    by (simp add: map_of_eq_None_iff image_iff) force
  moreover from lk have "(map_of (nodeLink ?C) r \<noteq> None) = (\<exists>v\<in>set (all_visits D). last (fst v) = r)"
    unfolding link_inv_def by blast
  ultimately obtain v where "v \<in> set (all_visits D)" by blast
  from visit_length[OF this] obtain tc where "tc \<in> set D" "fst v \<noteq> []"
    "length (fst v) \<le> length (fst tc)" by blast
  with assms have b0: "0 < b" by (cases "fst v") force+
  have fin: "finite (set (0 # map (\<lambda>a. length (prefix (nodes ?C ! a))) (concat (map snd (nodeLink ?C)))))"
    by simp
  have "Max (set (0 # map (\<lambda>a. length (prefix (nodes ?C ! a))) (concat (map snd (nodeLink ?C))))) < b"
    apply (subst Max_less_iff[OF fin])
    using bound b0 by auto
  then have "Suc (Max (set (0 # map (\<lambda>a. length (prefix (nodes ?C ! a))) (concat (map snd (nodeLink ?C)))))) \<le> b"
    by (rule Suc_leI)
  with False show ?thesis by (simp only: link_height_def if_False)
qed

lemma link_height_cond:
  assumes "generateConditionalTree T r = Inr C"
  shows "link_height C < link_height T"
proof -
  from assms have has: "dict_has (nodeLink T) r" and C: "C = insert_all (patternBase T r) new_Tree"
    by (auto simp: generateConditionalTree_eq split: if_splits)
  from has obtain as where as: "map_of (nodeLink T) r = Some as" by (auto simp: dict_has_def)
  then have mem: "(r, as) \<in> set (nodeLink T)" by (rule map_of_SomeD)
  then have ne: "nodeLink T \<noteq> []" by auto
  let ?M = "Max (set (0 # map (\<lambda>a. length (prefix (nodes T ! a))) (concat (map snd (nodeLink T)))))"
  have "\<forall>tc\<in>set (patternBase T r). length (fst tc) \<le> ?M"
  proof
    fix tc assume "tc \<in> set (patternBase T r)"
    then obtain a where a: "a \<in> set as" "fst tc = prefix (nodes T ! a)"
      using as by (auto simp: patternBase_def link_def)
    with mem have "a \<in> set (concat (map snd (nodeLink T)))" by force
    then have "length (prefix (nodes T ! a)) \<in>
        set (0 # map (\<lambda>a. length (prefix (nodes T ! a))) (concat (map snd (nodeLink T))))"
      by simp
    then show "length (fst tc) \<le> ?M" unfolding a(2) by (intro Max_ge) auto
  qed
  from link_height_built[OF this] ne show ?thesis unfolding C by (simp add: link_height_def)
qed

termination genFreqPatterns
proof (relation "measures [\<lambda>x. case x of Inl (m, i, p, t) \<Rightarrow> 2 * link_height t
                                       | Inr (m, p, t, l, f) \<Rightarrow> 2 * link_height t + 1,
                           \<lambda>x. case x of Inl _ \<Rightarrow> 0 | Inr (m, p, t, l, f) \<Rightarrow> length l]")
  show "wf (measures [\<lambda>x. case x of Inl (m, i, p, t) \<Rightarrow> 2 * link_height t
                                       | Inr (m, p, t, l, f) \<Rightarrow> 2 * link_height t + 1,
                           \<lambda>x. case x of Inl _ \<Rightarrow> 0 | Inr (m, p, t, l, f) \<Rightarrow> length l])"
    by simp
qed (auto dest: link_height_cond)

termination genFreqDepth
proof (relation "measures [\<lambda>x. case x of Inl (m, i, t) \<Rightarrow> 2 * link_height t
                                       | Inr (m, t, l) \<Rightarrow> 2 * link_height t + 1,
                           \<lambda>x. case x of Inl _ \<Rightarrow> 0 | Inr (m, t, l) \<Rightarrow> length l]")
  show "wf (measures [\<lambda>x. case x of Inl (m, i, t) \<Rightarrow> 2 * link_height t
                                       | Inr (m, t, l) \<Rightarrow> 2 * link_height t + 1,
                           \<lambda>x. case x of Inl _ \<Rightarrow> 0 | Inr (m, t, l) \<Rightarrow> length l])"
    by simp
qed (auto dest: link_height_cond)

section \<open>What one insertion does\<close>

lemma store_closed:
  assumes "store_inv T V pth" "p @ ys \<in> pth ` {..<length (nodes T)}"
  shows "p \<in> pth ` {..<length (nodes T)}"
  using assms(2)
proof (induction ys rule: rev_induct)
  case Nil
  then show ?case by simp
next
  case (snoc y ys)
  from assms(1) have img: "pth ` {..<length (nodes T)} = insert [] (fst ` set V)"
    and cl: "\<forall>v\<in>set V. butlast (fst v) \<in> insert [] (fst ` set V)"
    unfolding store_inv_def by blast+
  from snoc.prems img have "p @ ys @ [y] \<in> fst ` set V" by auto
  then obtain v where "v \<in> set V" "fst v = p @ ys @ [y]" by auto
  with cl have "butlast (p @ ys @ [y]) \<in> insert [] (fst ` set V)" by metis
  then have "p @ ys \<in> pth ` {..<length (nodes T)}"
    unfolding img by (simp add: butlast_append)
  then show ?case by (rule snoc.IH)
qed

lemma walk_iff:
  assumes "store_inv T V pth" "child_inv T pth" "a < length (nodes T)"
  shows "(walk T a rs = Some b) = (b < length (nodes T) \<and> pth b = pth a @ rs)"
  using assms(3)
proof (induction rs arbitrary: a)
  case Nil
  from assms(1) have "inj_on pth {..<length (nodes T)}" unfolding store_inv_def by blast
  with Nil show ?case by (auto dest: inj_onD)
next
  case (Cons r rs)
  from assms(2) Cons.prems have ch: "\<And>r c. (map_of (children (nodes T ! a)) r = Some c) =
      (c < length (nodes T) \<and> pth c = pth a @ [r])" unfolding child_inv_def by blast
  show ?case
  proof (cases "map_of (children (nodes T ! a)) r")
    case None
    have "\<not> (b < length (nodes T) \<and> pth b = pth a @ r # rs)"
    proof
      assume b: "b < length (nodes T) \<and> pth b = pth a @ r # rs"
      then have "pth b = (pth a @ [r]) @ rs" "b \<in> {..<length (nodes T)}" by simp_all
      then have "(pth a @ [r]) @ rs \<in> pth ` {..<length (nodes T)}" by (metis imageI)
      from store_closed[OF assms(1) this] obtain c where "c < length (nodes T)" "pth c = pth a @ [r]"
        by auto
      with ch[of r c] None show False by simp
    qed
    with None show ?thesis by simp
  next
    case (Some c)
    with ch[of r c] have c: "c < length (nodes T)" "pth c = pth a @ [r]" by simp_all
    from Cons.IH[OF c(1)] Some c(2) show ?thesis by simp
  qed
qed

lemma node_at_iff:
  assumes "tree_inv T V pth"
  shows "(node_at T p = Some b) = (b < length (nodes T) \<and> pth b = p)"
proof -
  from assms have st: "store_inv T V pth" and ch: "child_inv T pth" unfolding tree_inv_def by auto
  from st have r: "root T = 0" "0 < length (nodes T)" "pth 0 = []" unfolding store_inv_def by auto
  from walk_iff[OF st ch r(2), of p b] r show ?thesis by (simp add: node_at_def)
qed

lemma wt_app: "wt (V @ W) p = wt V p + wt W p"
  by (simp add: wt_def)

lemma take_Suc_inj:
  assumes "j < length t" "k < length t" "take (Suc j) t = take (Suc k) t"
  shows "j = k"
proof -
  from assms(3) have "length (take (Suc j) t) = length (take (Suc k) t)" by simp
  with assms(1,2) show ?thesis by simp
qed

lemma sum_list_visits:
  "(\<Sum>v\<leftarrow>filter Q (visits t c). snd v) =
   c * int (card {j. j < length t \<and> Q (take (Suc j) t, c)})"
proof -
  have "(\<Sum>v\<leftarrow>filter Q (visits t c). snd v) =
        (\<Sum>j\<leftarrow>[0..<length t]. if Q (take (Suc j) t, c) then c else 0)"
    by (simp add: visits_def sum_list_map_filter' comp_def cong: if_cong)
  also have "\<dots> = (\<Sum>j\<in>{0..<length t}. if Q (take (Suc j) t, c) then c else 0)"
    by (simp add: interv_sum_list_conv_sum_set_nat)
  also have "\<dots> = (\<Sum>j\<in>{j. j < length t \<and> Q (take (Suc j) t, c)}. c)"
    by (rule sum.mono_neutral_cong_right) auto
  also have "\<dots> = c * int (card {j. j < length t \<and> Q (take (Suc j) t, c)})"
    by simp
  finally show ?thesis .
qed

lemma wt_visits:
  "wt (visits t c) p = (if \<exists>k<length t. p = take (Suc k) t then c else 0)"
proof (cases "\<exists>k<length t. p = take (Suc k) t")
  case True
  then obtain k where k: "k < length t" "p = take (Suc k) t" by blast
  have "{j. j < length t \<and> fst (take (Suc j) t, c) = p} = {k}"
    using k take_Suc_inj[of _ t k] by auto
  then have "wt (visits t c) p = c" unfolding wt_def sum_list_visits by simp
  with True show ?thesis by auto
next
  case False
  then have "{j. j < length t \<and> fst (take (Suc j) t, c) = p} = {}" by auto
  then have "wt (visits t c) p = 0" unfolding wt_def sum_list_visits by simp
  with False show ?thesis by auto
qed

lemma visits_paths: "fst ` set (visits t c) = {take (Suc k) t | k. k < length t}"
  by (force simp: visits_def image_iff)

lemma addTransaction_rel:
  "\<exists>V pth pth'. tree_inv (insert_all D new_Tree) V pth \<and>
       tree_inv (addTransaction (insert_all D new_Tree) t c) (V @ visits t c) pth' \<and>
       length (nodes (insert_all D new_Tree)) \<le> length (nodes (addTransaction (insert_all D new_Tree) t c)) \<and>
       (\<forall>b<length (nodes (insert_all D new_Tree)). pth' b = pth b)"
proof -
  obtain pth where 1: "tree_inv (insert_all D new_Tree) (all_visits D) pth" using built_inv by blast
  from addTransaction_inv[OF 1, of t c] show ?thesis using 1 by blast
qed


lemma last_take_Suc: "k < length t \<Longrightarrow> last (take (Suc k) t) = t ! k"
  by (simp add: take_Suc_conv_app_nth)

lemma takeWhile_take_distinct:
  assumes "distinct t" "k < length t"
  shows "takeWhile (\<lambda>x. x \<noteq> t ! k) (take (Suc k) t) = take k t"
proof -
  have "t ! k \<notin> set (take k t)"
    using assms by (metis distinct_take id_take_nth_drop not_distinct_conv_prefix)
  then have "takeWhile (\<lambda>x. x \<noteq> t ! k) (take k t @ [t ! k]) = take k t"
    by (subst takeWhile_append2) auto
  then show ?thesis using assms(2) by (simp add: take_Suc_conv_app_nth)
qed

lemma distinct_positions:
  assumes "distinct t"
  shows "card {j. j < length t \<and> t ! j = r} = (if r \<in> set t then 1 else 0)"
proof (cases "r \<in> set t")
  case True
  then obtain i where i: "i < length t" "t ! i = r" by (auto simp: in_set_conv_nth)
  have "{j. j < length t \<and> t ! j = r} = {i}"
    using i assms by (auto simp: nth_eq_iff_index_eq)
  with True show ?thesis by simp
next
  case False
  then have "{j. j < length t \<and> t ! j = r} = {}" by auto
  with False show ?thesis by simp
qed

lemma visits_last_sum:
  assumes "distinct t"
  shows "(\<Sum>v\<leftarrow>filter (\<lambda>v. last (fst v) = r) (visits t c). snd v) = (if r \<in> set t then c else 0)"
proof -
  have "{j. j < length t \<and> last (fst (take (Suc j) t, c)) = r} = {j. j < length t \<and> t ! j = r}"
    by (auto simp: last_take_Suc)
  then show ?thesis
    unfolding sum_list_visits using distinct_positions[OF assms, of r] by simp
qed

lemma visits_last_ex: "(\<exists>v\<in>set (visits t c). last (fst v) = r) = (r \<in> set t)"
proof
  assume "\<exists>v\<in>set (visits t c). last (fst v) = r"
  then obtain k where "k < length t" "last (take (Suc k) t) = r" by (auto simp: visits_def)
  then show "r \<in> set t" by (auto simp: last_take_Suc)
next
  assume "r \<in> set t"
  then obtain k where k: "k < length t" "t ! k = r" by (auto simp: in_set_conv_nth)
  then have "(take (Suc k) t, c) \<in> set (visits t c)" by (auto simp: visits_def)
  with k show "\<exists>v\<in>set (visits t c). last (fst v) = r" by (force simp: last_take_Suc)
qed

lemma effect_walked:
  assumes inv: "tree_inv T V pth" and inv': "tree_inv T' (V @ visits t c) pth'"
    and ext: "\<forall>b<length (nodes T). pth' b = pth b"
    and le: "length (nodes T) \<le> length (nodes T')"
    and d: "distinct t" and k: "k < length t"
  shows "\<exists>a. node_at T' (take (Suc k) t) = Some a \<and> a < length (nodes T') \<and>
           item (nodes T' ! a) = Some (t ! k) \<and> a \<in> set (link T' (t ! k)) \<and>
           (case node_at T (take (Suc k) t) of
              None \<Rightarrow> length (nodes T) \<le> a \<and> prefix (nodes T' ! a) = take k t \<and>
                       count_n (nodes T' ! a) = c
            | Some b \<Rightarrow> a = b \<and> count_n (nodes T' ! a) = count_n (nodes T ! b) + c)"
proof -
  let ?p = "take (Suc k) t"
  from inv have st: "store_inv T V pth" and nd: "node_inv T V pth" unfolding tree_inv_def by auto
  from inv' have st': "store_inv T' (V @ visits t c) pth'"
    and nd': "node_inv T' (V @ visits t c) pth'" and lk': "link_inv T' (V @ visits t c) pth'"
    unfolding tree_inv_def by auto
  have pne: "?p \<noteq> []" using k by (cases t) auto
  have "?p \<in> fst ` set (visits t c)" unfolding visits_paths using k by blast
  then have "?p \<in> pth' ` {..<length (nodes T')}" using st' unfolding store_inv_def by auto
  then obtain a where a: "a < length (nodes T')" "pth' a = ?p" by auto
  from st' have z': "pth' 0 = []" and inj': "inj_on pth' {..<length (nodes T')}"
    unfolding store_inv_def by auto
  from a(2) pne z' have a0: "0 < a" by (cases "a = 0") auto
  from nd' a a0 have na: "item (nodes T' ! a) = Some (t ! k)"
    "prefix (nodes T' ! a) = take k t" "count_n (nodes T' ! a) = wt V ?p + c"
    unfolding node_inv_def
    using k by (auto simp: last_take_Suc takeWhile_take_distinct[OF d k] wt_app wt_visits)
  from lk' a a0 have al: "a \<in> set (link T' (t ! k))"
    unfolding link_inv_def using k by (simp add: last_take_Suc)
  have at': "node_at T' ?p = Some a" using node_at_iff[OF inv'] a by simp
  show ?thesis
  proof (cases "node_at T ?p")
    case None
    have nob: "\<And>b. b < length (nodes T) \<Longrightarrow> pth b \<noteq> ?p"
      using node_at_iff[OF inv, of ?p] None by auto
    have "length (nodes T) \<le> a"
    proof (rule ccontr)
      assume "\<not> length (nodes T) \<le> a"
      then have "a < length (nodes T)" by simp
      with ext a(2) nob[of a] show False by simp
    qed
    moreover have "?p \<notin> fst ` set V"
      using paths_in_store[OF st] nob by force
    then have "wt V ?p = 0" by (rule wt_notin)
    ultimately show ?thesis using None at' a(1) na al by simp
  next
    case (Some b)
    then have b: "b < length (nodes T)" "pth b = ?p" using node_at_iff[OF inv] by auto
    with ext le have "pth' b = pth' a" "b < length (nodes T')" using a(2) by auto
    with inj' a(1) have ab: "a = b" by (auto dest: inj_onD)
    from nd b ab a0 have "count_n (nodes T ! b) = wt V ?p" unfolding node_inv_def by auto
    with Some at' a(1) na al ab show ?thesis by simp
  qed
qed

lemma effect_itemCount:
  assumes inv: "tree_inv T V pth" and inv': "tree_inv T' (V @ visits t c) pth'"
    and d: "distinct t"
  shows "map_of (itemCount T') r =
           (if r \<in> set t
            then Some ((case map_of (itemCount T) r of None \<Rightarrow> 0 | Some v \<Rightarrow> v) + c)
            else map_of (itemCount T) r)"
proof -
  from inv have ci: "map_of (itemCount T) r =
          (if \<exists>v\<in>set V. last (fst v) = r
           then Some (\<Sum>v\<leftarrow>filter (\<lambda>v. last (fst v) = r) V. snd v) else None)"
    unfolding tree_inv_def count_inv_def by blast
  from inv' have ci': "map_of (itemCount T') r =
          (if \<exists>v\<in>set (V @ visits t c). last (fst v) = r
           then Some (\<Sum>v\<leftarrow>filter (\<lambda>v. last (fst v) = r) (V @ visits t c). snd v) else None)"
    unfolding tree_inv_def count_inv_def by blast
  have ex: "(\<exists>v\<in>set (V @ visits t c). last (fst v) = r) =
            ((\<exists>v\<in>set V. last (fst v) = r) \<or> r \<in> set t)"
    using visits_last_ex[of t c r] by auto
  have none: "\<not> (\<exists>v\<in>set V. last (fst v) = r) \<Longrightarrow> filter (\<lambda>v. last (fst v) = r) V = []"
    by (auto simp: filter_empty_conv)
  show ?thesis
    unfolding ci' ci ex using visits_last_sum[OF d, of r c] none by auto
qed


lemma effect_old_nodes:
  assumes inv: "tree_inv T V pth" and inv': "tree_inv T' (V @ visits t c) pth'"
    and ext: "\<forall>b<length (nodes T). pth' b = pth b"
    and le: "length (nodes T) \<le> length (nodes T')"
    and a: "a < length (nodes T)"
  shows "item (nodes T' ! a) = item (nodes T ! a)"
    and "prefix (nodes T' ! a) = prefix (nodes T ! a)"
    and "(\<forall>k<length t. node_at T (take (Suc k) t) \<noteq> Some a) \<longrightarrow>
           count_n (nodes T' ! a) = count_n (nodes T ! a)"
proof -
  from inv have st: "store_inv T V pth" and nd: "node_inv T V pth" unfolding tree_inv_def by auto
  from inv' have st': "store_inv T' (V @ visits t c) pth'"
    and nd': "node_inv T' (V @ visits t c) pth'" unfolding tree_inv_def by auto
  from a le have a': "a < length (nodes T')" by simp
  from ext a have pa: "pth' a = pth a" by simp
  have "item (nodes T' ! a) = item (nodes T ! a) \<and> prefix (nodes T' ! a) = prefix (nodes T ! a) \<and>
        ((\<forall>k<length t. node_at T (take (Suc k) t) \<noteq> Some a) \<longrightarrow>
           count_n (nodes T' ! a) = count_n (nodes T ! a))"
  proof (cases "a = 0")
    case True
    with st st' show ?thesis unfolding store_inv_def by simp
  next
    case False
    then have a0: "0 < a" by simp
    from nd a a0 have o: "item (nodes T ! a) = Some (last (pth a))"
      "prefix (nodes T ! a) = takeWhile (\<lambda>x. x \<noteq> last (pth a)) (pth a)"
      "count_n (nodes T ! a) = wt V (pth a)" unfolding node_inv_def by auto
    from nd' a' a0 pa have n: "item (nodes T' ! a) = Some (last (pth a))"
      "prefix (nodes T' ! a) = takeWhile (\<lambda>x. x \<noteq> last (pth a)) (pth a)"
      "count_n (nodes T' ! a) = wt (V @ visits t c) (pth a)" unfolding node_inv_def by auto
    have "wt (visits t c) (pth a) = 0" if "\<forall>k<length t. node_at T (take (Suc k) t) \<noteq> Some a"
      using that a node_at_iff[OF inv] unfolding wt_visits by auto
    with o n show ?thesis by (simp add: wt_app)
  qed
  then show "item (nodes T' ! a) = item (nodes T ! a)"
    and "prefix (nodes T' ! a) = prefix (nodes T ! a)"
    and "(\<forall>k<length t. node_at T (take (Suc k) t) \<noteq> Some a) \<longrightarrow>
           count_n (nodes T' ! a) = count_n (nodes T ! a)" by blast+
qed

lemma effect_new_nodes:
  assumes inv: "tree_inv T V pth" and inv': "tree_inv T' (V @ visits t c) pth'"
    and ext: "\<forall>b<length (nodes T). pth' b = pth b"
    and le: "length (nodes T) \<le> length (nodes T')"
    and a: "length (nodes T) \<le> a" "a < length (nodes T')"
  shows "\<exists>k<length t. node_at T' (take (Suc k) t) = Some a \<and> node_at T (take (Suc k) t) = None"
proof -
  from inv have st: "store_inv T V pth" unfolding tree_inv_def by auto
  from inv' have st': "store_inv T' (V @ visits t c) pth'" unfolding tree_inv_def by auto
  from st have n0: "0 < length (nodes T)" unfolding store_inv_def by simp
  from st' have inj': "inj_on pth' {..<length (nodes T')}" unfolding store_inv_def by simp
  have old: "pth' a \<noteq> pth' b" if "b < length (nodes T)" for b
  proof
    assume "pth' a = pth' b"
    with inj' a(2) that le have "a = b" by (auto dest: inj_onD)
    with that a(1) show False by simp
  qed
  from n0 a(1) have a0: "0 < a" by linarith
  from store_path_visited[OF st' a0 a(2)] have "pth' a \<in> fst ` set (V @ visits t c)" by simp
  moreover have "pth' a \<notin> fst ` set V"
  proof
    assume "pth' a \<in> fst ` set V"
    then obtain v where "v \<in> set V" "fst v = pth' a" by auto
    from paths_in_store[OF st this(1)] this(2) obtain b where "b < length (nodes T)" "pth b = pth' a"
      by auto
    with ext old[of b] show False by simp
  qed
  ultimately have "pth' a \<in> fst ` set (visits t c)" by auto
  then obtain k where k: "k < length t" "pth' a = take (Suc k) t" unfolding visits_paths by auto
  have 1: "node_at T' (take (Suc k) t) = Some a" using node_at_iff[OF inv'] a(2) k(2) by simp
  have 2: "node_at T (take (Suc k) t) = None"
  proof (cases "node_at T (take (Suc k) t)")
    case None
    then show ?thesis .
  next
    case (Some b)
    then have "b < length (nodes T)" "pth b = take (Suc k) t" using node_at_iff[OF inv] by auto
    with ext k(2) old[of b] show ?thesis by simp
  qed
  from k(1) 1 2 show ?thesis by blast
qed

lemma effect_links:
  assumes inv: "tree_inv T V pth" and inv': "tree_inv T' (V @ visits t c) pth'"
    and ext: "\<forall>b<length (nodes T). pth' b = pth b"
    and le: "length (nodes T) \<le> length (nodes T')"
  shows "set (link T' r) = set (link T r) \<union>
           {a. length (nodes T) \<le> a \<and> a < length (nodes T') \<and> item (nodes T' ! a) = Some r}"
proof -
  from inv have lk: "set (link T r) = {a. 0 < a \<and> a < length (nodes T) \<and> last (pth a) = r}"
    and n0: "0 < length (nodes T)"
    unfolding tree_inv_def link_inv_def store_inv_def by blast+
  from inv' have lk': "set (link T' r) = {a. 0 < a \<and> a < length (nodes T') \<and> last (pth' a) = r}"
    and nd': "\<And>a. a < length (nodes T') \<Longrightarrow> 0 < a \<Longrightarrow> item (nodes T' ! a) = Some (last (pth' a))"
    unfolding tree_inv_def link_inv_def node_inv_def by blast+
  show ?thesis
  proof (intro set_eqI iffI)
    fix a assume "a \<in> set (link T' r)"
    then have a: "0 < a" "a < length (nodes T')" "last (pth' a) = r" unfolding lk' by auto
    show "a \<in> set (link T r) \<union>
           {a. length (nodes T) \<le> a \<and> a < length (nodes T') \<and> item (nodes T' ! a) = Some r}"
    proof (cases "a < length (nodes T)")
      case True
      with ext a show ?thesis unfolding lk by auto
    next
      case False
      with a nd'[OF a(2) a(1)] show ?thesis by auto
    qed
  next
    fix a assume "a \<in> set (link T r) \<union>
           {a. length (nodes T) \<le> a \<and> a < length (nodes T') \<and> item (nodes T' ! a) = Some r}"
    then consider "a \<in> set (link T r)"
      | "length (nodes T) \<le> a" "a < length (nodes T')" "item (nodes T' ! a) = Some r" by auto
    then show "a \<in> set (link T' r)"
    proof cases
      case 1
      with ext le show ?thesis unfolding lk lk' by auto
    next
      case 2
      with n0 have "0 < a" by linarith
      with 2 nd'[OF 2(2) this] show ?thesis unfolding lk' by auto
    qed
  qed
qed

lemma effect_children_off:
  assumes inv: "tree_inv T V pth" and inv': "tree_inv T' (V @ visits t c) pth'"
    and same: "\<forall>b<length (nodes T). pth' b = pth b"
    and le: "length (nodes T) \<le> length (nodes T')"
    and a: "a < length (nodes T')"
    and off: "\<forall>k<length t. node_at T' (take k t) = Some a \<longrightarrow> t ! k \<noteq> r"
  shows "map_of (children (nodes T' ! a)) r =
           (if a < length (nodes T) then map_of (children (nodes T ! a)) r else None)"
proof -
  from inv' a have ch': "\<And>b. (map_of (children (nodes T' ! a)) r = Some b) =
      (b < length (nodes T') \<and> pth' b = pth' a @ [r])" unfolding tree_inv_def child_inv_def by simp
  from inv have st: "store_inv T V pth" unfolding tree_inv_def by simp
  from inv' have st': "store_inv T' (V @ visits t c) pth'" unfolding tree_inv_def by simp
  from st' have inj: "inj_on pth' {..<length (nodes T')}" unfolding store_inv_def by blast
  have new: "\<not> (b < length (nodes T') \<and> pth' b = pth' a @ [r])" if nb: "\<not> b < length (nodes T)" for b
  proof
    assume b: "b < length (nodes T') \<and> pth' b = pth' a @ [r]"
    from effect_new_nodes[OF inv inv' same le, of b] nb b
    obtain k where k: "k < length t" "node_at T' (take (Suc k) t) = Some b" by auto
    then have "pth' b = take (Suc k) t" using node_at_iff[OF inv'] by auto
    with b k(1) have "pth' a = take k t" "r = t ! k" by (simp_all add: take_Suc_conv_app_nth)
    then have "node_at T' (take k t) = Some a" using node_at_iff[OF inv'] a by simp
    with off k(1) \<open>r = t ! k\<close> show False by blast
  qed
  show ?thesis
  proof (cases "a < length (nodes T)")
    case True
    from inv True have ch: "\<And>b. (map_of (children (nodes T ! a)) r = Some b) =
      (b < length (nodes T) \<and> pth b = pth a @ [r])" unfolding tree_inv_def child_inv_def by blast
    from same True have pa: "pth' a = pth a" by simp
    have eq: "(map_of (children (nodes T' ! a)) r = Some b) = (map_of (children (nodes T ! a)) r = Some b)" for b
    proof (cases "b < length (nodes T)")
      case True
      with same le show ?thesis unfolding ch ch' pa by auto
    next
      case False
      from new[OF False] False show ?thesis unfolding ch ch' pa by auto
    qed
    have "map_of (children (nodes T' ! a)) r = map_of (children (nodes T ! a)) r"
    proof (cases "map_of (children (nodes T' ! a)) r")
      case None
      have "map_of (children (nodes T ! a)) r = None"
      proof (rule ccontr)
        assume "map_of (children (nodes T ! a)) r \<noteq> None"
        then obtain b where "map_of (children (nodes T ! a)) r = Some b" by blast
        with eq[of b] None show False by simp
      qed
      with None show ?thesis by simp
    next
      case (Some b)
      with eq[of b] show ?thesis by simp
    qed
    with True show ?thesis by simp
  next
    case False
    have "map_of (children (nodes T' ! a)) r = None"
    proof (rule ccontr)
      assume "map_of (children (nodes T' ! a)) r \<noteq> None"
      then obtain b where "map_of (children (nodes T' ! a)) r = Some b" by blast
      then have b: "b < length (nodes T')" "pth' b = pth' a @ [r]" unfolding ch' by simp_all
      with new[of b] have bo: "b < length (nodes T)" by blast
      with same have "pth b = pth' a @ [r]" using b(2) by simp
      with bo have "pth' a @ [r] \<in> pth ` {..<length (nodes T)}" by (metis imageI lessThan_iff)
      from store_closed[OF st this] obtain a0 where a0: "a0 < length (nodes T)" "pth a0 = pth' a" by auto
      with same have "pth' a0 = pth' a" by simp
      moreover from a0 le have "a0 \<in> {..<length (nodes T')}" by simp
      moreover from a have "a \<in> {..<length (nodes T')}" by simp
      ultimately have "a0 = a" using inj by (rule_tac inj_onD)
      with a0 False show False by simp
    qed
    with False show ?thesis by simp
  qed
qed

lemma effect_children_on:
  assumes "node_at T' (take k t) = Some a" "k < length t"
  shows "map_of (children (nodes T' ! a)) (t ! k) = node_at T' (take (Suc k) t)"
proof -
  have w: "walk T' x (p @ [r]) = (case walk T' x p of None \<Rightarrow> None
             | Some y \<Rightarrow> map_of (children (nodes T' ! y)) r)" for x p r
    by (induction p arbitrary: x) (auto split: option.splits)
  from assms show ?thesis
    unfolding node_at_def by (simp add: take_Suc_conv_app_nth w)
qed


text \<open>
  C8: let \<open>T\<close> be any tree built by insertions and \<open>t\<close> a sequence of distinct ranks.
  After \<open>addTransaction T t c\<close> the root is the same and, for every position \<open>k\<close> of
  \<open>t\<close>, the path \<open>t[0..k]\<close> leads from the root to a node with rank \<open>t[k]\<close> that is
  linked in \<open>nodeLink[t[k]]\<close>; where \<open>T\<close> had no such node it is a new one, with prefix
  \<open>t[0..k-1]\<close> and count \<open>c\<close>, and where \<open>T\<close> had it, it is the same node and its count
  grew by \<open>c\<close>. \<open>itemCount\<close> grew by \<open>c\<close> at the ranks of \<open>t\<close> and nowhere else.
  No other node changed: rank and prefix of every old node are as before, and its
  count is as before unless it lies on the path. The children of every node \<open>a\<close> of the
  new tree, old or new, are given entry by entry: if \<open>a\<close> is the parent of step \<open>k\<close> (the
  node at \<open>t[0..k-1]\<close>), its child of rank \<open>t[k]\<close> is the node of step \<open>k\<close>; every other
  entry \<open>r\<close> of \<open>a\<close> is what it was in \<open>T\<close> when \<open>a\<close> is an old node, and absent when \<open>a\<close>
  is a new one. Every new node is one of the nodes created on the path; \<open>nodeLink\<close>
  gained the new nodes and nothing else.
\<close>

theorem addTransaction_effect:
  assumes "distinct t"
  shows "let T = insert_all D new_Tree; T' = addTransaction T t c in
     root T' = root T \<and> length (nodes T) \<le> length (nodes T') \<and>
     (\<forall>k<length t. \<exists>a. node_at T' (take (Suc k) t) = Some a \<and> a < length (nodes T') \<and>
           item (nodes T' ! a) = Some (t ! k) \<and> a \<in> set (link T' (t ! k)) \<and>
           (case node_at T (take (Suc k) t) of
              None \<Rightarrow> length (nodes T) \<le> a \<and> prefix (nodes T' ! a) = take k t \<and>
                       count_n (nodes T' ! a) = c
            | Some b \<Rightarrow> a = b \<and> count_n (nodes T' ! a) = count_n (nodes T ! b) + c)) \<and>
     (\<forall>r. map_of (itemCount T') r =
           (if r \<in> set t
            then Some ((case map_of (itemCount T) r of None \<Rightarrow> 0 | Some v \<Rightarrow> v) + c)
            else map_of (itemCount T) r)) \<and>
     (\<forall>a<length (nodes T).
         item (nodes T' ! a) = item (nodes T ! a) \<and>
         prefix (nodes T' ! a) = prefix (nodes T ! a) \<and>
         ((\<forall>k<length t. node_at T (take (Suc k) t) \<noteq> Some a) \<longrightarrow>
            count_n (nodes T' ! a) = count_n (nodes T ! a))) \<and>
     (\<forall>k<length t. \<forall>a. node_at T' (take k t) = Some a \<longrightarrow>
         map_of (children (nodes T' ! a)) (t ! k) = node_at T' (take (Suc k) t)) \<and>
     (\<forall>a<length (nodes T'). \<forall>r.
         (\<forall>k<length t. node_at T' (take k t) = Some a \<longrightarrow> t ! k \<noteq> r) \<longrightarrow>
         map_of (children (nodes T' ! a)) r =
           (if a < length (nodes T) then map_of (children (nodes T ! a)) r else None)) \<and>
     (\<forall>a. length (nodes T) \<le> a \<and> a < length (nodes T') \<longrightarrow>
         (\<exists>k<length t. node_at T' (take (Suc k) t) = Some a \<and>
                        node_at T (take (Suc k) t) = None)) \<and>
     (\<forall>r. set (link T' r) = set (link T r) \<union>
           {a. length (nodes T) \<le> a \<and> a < length (nodes T') \<and> item (nodes T' ! a) = Some r})"
proof -
  let ?T = "insert_all D new_Tree"
  let ?T' = "addTransaction ?T t c"
  from addTransaction_rel[of D t c] obtain V pth pth' where
    inv: "tree_inv ?T V pth" and inv': "tree_inv ?T' (V @ visits t c) pth'"
    and le: "length (nodes ?T) \<le> length (nodes ?T')"
    and same: "\<forall>b<length (nodes ?T). pth' b = pth b" by blast
  note w = effect_walked[OF inv inv' same le assms]
  note ic = effect_itemCount[OF inv inv' assms]
  note on = effect_old_nodes[OF inv inv' same le]
  note ch = effect_children_off[OF inv inv' same le]
  note nn = effect_new_nodes[OF inv inv' same le]
  note lk = effect_links[OF inv inv' same le]
  from inv inv' have rt: "root ?T' = root ?T" unfolding tree_inv_def store_inv_def by simp
  show ?thesis
    unfolding Let_def
  proof (intro conjI allI impI)
    show "root ?T' = root ?T" by (rule rt)
  next
    show "length (nodes ?T) \<le> length (nodes ?T')" by (rule le)
  next
    fix k assume "k < length t"
    then show "\<exists>a. node_at ?T' (take (Suc k) t) = Some a \<and> a < length (nodes ?T') \<and>
           item (nodes ?T' ! a) = Some (t ! k) \<and> a \<in> set (link ?T' (t ! k)) \<and>
           (case node_at ?T (take (Suc k) t) of
              None \<Rightarrow> length (nodes ?T) \<le> a \<and> prefix (nodes ?T' ! a) = take k t \<and>
                       count_n (nodes ?T' ! a) = c
            | Some b \<Rightarrow> a = b \<and> count_n (nodes ?T' ! a) = count_n (nodes ?T ! b) + c)"
      by (rule w)
  next
    fix r show "map_of (itemCount ?T') r =
           (if r \<in> set t
            then Some ((case map_of (itemCount ?T) r of None \<Rightarrow> 0 | Some v \<Rightarrow> v) + c)
            else map_of (itemCount ?T) r)" by (rule ic)
  next
    fix a assume "a < length (nodes ?T)"
    then show "item (nodes ?T' ! a) = item (nodes ?T ! a)" by (rule on(1))
  next
    fix a assume "a < length (nodes ?T)"
    then show "prefix (nodes ?T' ! a) = prefix (nodes ?T ! a)" by (rule on(2))
  next
    fix a assume "a < length (nodes ?T)" "\<forall>k<length t. node_at ?T (take (Suc k) t) \<noteq> Some a"
    then show "count_n (nodes ?T' ! a) = count_n (nodes ?T ! a)" using on(3) by blast
  next
    fix k a assume "k < length t" "node_at ?T' (take k t) = Some a"
    then show "map_of (children (nodes ?T' ! a)) (t ! k) = node_at ?T' (take (Suc k) t)"
      using effect_children_on by blast
  next
    fix a r assume "a < length (nodes ?T')"
      "\<forall>k<length t. node_at ?T' (take k t) = Some a \<longrightarrow> t ! k \<noteq> r"
    then show "map_of (children (nodes ?T' ! a)) r =
           (if a < length (nodes ?T) then map_of (children (nodes ?T ! a)) r else None)"
      by (rule ch)
  next
    fix a assume "length (nodes ?T) \<le> a \<and> a < length (nodes ?T')"
    then show "\<exists>k<length t. node_at ?T' (take (Suc k) t) = Some a \<and>
                        node_at ?T (take (Suc k) t) = None" using nn by blast
  next
    fix r show "set (link ?T' r) = set (link ?T r) \<union>
           {a. length (nodes ?T) \<le> a \<and> a < length (nodes ?T') \<and> item (nodes ?T' ! a) = Some r}"
      by (rule lk)
  qed
qed

theorem addTransaction_effect_witness:
  "distinct [0, 2 :: nat] \<and>
   addTransaction (insert_all [([0, 1], 1)] new_Tree) [0, 2] 3 =
     \<lparr>nodes =
        [\<lparr>item = None, count_n = 0, children = [(0, 1)], prefix = []\<rparr>,
         \<lparr>item = Some 0, count_n = 4, children = [(1, 2), (2, 3)], prefix = []\<rparr>,
         \<lparr>item = Some 1, count_n = 1, children = [], prefix = [0]\<rparr>,
         \<lparr>item = Some 2, count_n = 3, children = [], prefix = [0]\<rparr>],
      root = 0, nodeLink = [(0, [1]), (1, [2]), (2, [3])],
      itemCount = [(0, 4), (1, 1), (2, 3)]\<rparr> \<and>
   map_of (itemCount (addTransaction (insert_all [([0, 1], 1)] new_Tree) [0, 2] 3)) 2 =
     Some ((case map_of (itemCount (insert_all [([0, 1], 1)] new_Tree)) 2 of
              None \<Rightarrow> 0 | Some v \<Rightarrow> v) + 3)"
proof -
  have h: "distinct [0, 2 :: nat]" by simp
  have v: "addTransaction (insert_all [([0, 1], 1)] new_Tree) [0, 2] 3 =
     \<lparr>nodes =
        [\<lparr>item = None, count_n = 0, children = [(0, 1)], prefix = []\<rparr>,
         \<lparr>item = Some 0, count_n = 4, children = [(1, 2), (2, 3)], prefix = []\<rparr>,
         \<lparr>item = Some 1, count_n = 1, children = [], prefix = [0]\<rparr>,
         \<lparr>item = Some 2, count_n = 3, children = [], prefix = [0]\<rparr>],
      root = 0, nodeLink = [(0, [1]), (1, [2]), (2, [3])],
      itemCount = [(0, 4), (1, 1), (2, 3)]\<rparr>"
    by code_simp
  from addTransaction_effect[OF h, of "[([0, 1], 1)]" 3]
  have "map_of (itemCount (addTransaction (insert_all [([0, 1], 1)] new_Tree) [0, 2] 3)) 2 =
     (if (2::nat) \<in> set [0, 2]
      then Some ((case map_of (itemCount (insert_all [([0, 1], 1)] new_Tree)) 2 of
              None \<Rightarrow> 0 | Some v \<Rightarrow> v) + 3)
      else map_of (itemCount (insert_all [([0, 1], 1)] new_Tree)) 2)"
    unfolding Let_def by blast
  then have "map_of (itemCount (addTransaction (insert_all [([0, 1], 1)] new_Tree) [0, 2] 3)) 2 =
     Some ((case map_of (itemCount (insert_all [([0, 1], 1)] new_Tree)) 2 of
              None \<Rightarrow> 0 | Some v \<Rightarrow> v) + 3)" by simp
  with h v show ?thesis by blast
qed


section \<open>The node links and the item counts\<close>

lemma filterE_subset: "filterE p xs = Inr ys \<Longrightarrow> set ys \<subseteq> set xs"
  by (induction xs arbitrary: ys) (auto split: sum.splits if_splits)

lemma ge_minSup_error: "ge_minSup ms c = Inl e \<Longrightarrow> e = TypeError"
  by (cases ms) auto

lemma filterE_error:
  "filterE (\<lambda>kv. ge_minSup ms (f kv)) xs = Inl e \<Longrightarrow> e = TypeError"
  by (induction xs) (auto split: sum.splits dest: ge_minSup_error)

lemma foldE_error:
  "foldE f xs s = Inl e \<Longrightarrow> \<exists>x\<in>set xs. \<exists>s'. f x s' = Inl e"
  by (induction xs arbitrary: s) (auto split: sum.splits)

lemma keys_linkCounts: "map fst (linkCounts C) = map fst (nodeLink C)"
  by (simp add: linkCounts_def case_prod_beta comp_def)

lemma genFreq_no_KeyError:
  "genFreqPatterns ms it pre tr = Inl e \<Longrightarrow> dict_has (nodeLink tr) it \<Longrightarrow> e \<noteq> KeyError"
  "genFreqLoop ms pre C l fp = Inl e \<Longrightarrow>
     \<forall>iv\<in>set l. dict_has (nodeLink C) (fst iv) \<Longrightarrow> e \<noteq> KeyError"
proof (induction ms it pre tr and ms pre C l fp rule: genFreqPatterns_genFreqLoop.induct)
  case (1 ms it pre tr)
  from "1.prems"(2) obtain C where C: "generateConditionalTree tr it = Inr C"
    by (simp add: generateConditionalTree_eq)
  show ?case
  proof (cases "filterE (\<lambda>kv. ge_minSup ms (snd kv)) (linkCounts C)")
    case (Inl e')
    with "1.prems"(1) C have "e = e'" by simp
    with filterE_error[OF Inl] show ?thesis by simp
  next
    case (Inr fi)
    with "1.prems"(1) C have l: "genFreqLoop ms pre C fi [] = Inl e" by simp
    have "\<forall>iv\<in>set fi. dict_has (nodeLink C) (fst iv)"
    proof
      fix iv assume "iv \<in> set fi"
      with filterE_subset[OF Inr] have "fst iv \<in> set (map fst (linkCounts C))" by auto
      then have "fst iv \<in> fst ` set (nodeLink C)" unfolding keys_linkCounts by simp
      then show "dict_has (nodeLink C) (fst iv)" by (simp add: dict_has_def map_of_eq_None_iff)
    qed
    from "1.IH"[OF C Inr l this] show ?thesis .
  qed
next
  case (2 ms pre C fp)
  then show ?case by simp
next
  case (3 ms pre C iv rest fp)
  show ?case
  proof (cases "genFreqPatterns ms (fst iv) (pre @ [fst iv]) C")
    case (Inl e')
    with "3.prems"(1) have "e = e'" by simp
    with "3.IH"(1) Inl "3.prems"(2) show ?thesis by simp
  next
    case (Inr sub)
    with "3.prems"(1) have
      "genFreqLoop ms pre C rest (dict_update (dict_set fp (pre @ [fst iv]) (snd iv)) sub) = Inl e"
      by simp
    from "3.IH"(2)[OF Inr this] "3.prems"(2) show ?thesis by simp
  qed
qed

lemma sum_list_pos':
  "xs \<noteq> [] \<Longrightarrow> \<forall>x\<in>set xs. 0 < f x \<Longrightarrow> 0 < (\<Sum>x\<leftarrow>xs. (f x :: int))"
proof (induction xs)
  case Nil
  then show ?case by simp
next
  case (Cons a xs)
  then show ?case by (cases "xs = []") (auto intro: add_pos_pos)
qed

lemma all_visits_snd:
  "v \<in> set (all_visits D) \<Longrightarrow> \<exists>tc\<in>set D. snd v = snd tc"
  by (force simp: all_visits_def visits_def)

text \<open>
  C9: in a tree built from the empty tree by insertions with positive counts, a rank is
  a key of \<open>nodeLink\<close> exactly when it is a key of \<open>itemCount\<close> with a positive value;
  \<open>itemCount[r]\<close> is the sum of the counts of the nodes in \<open>nodeLink[r]\<close>, so the
  aggregate that mining computes from \<open>nodeLink\<close> is \<open>itemCount\<close>; \<open>generateConditionalTree\<close>
  finds its key for every rank of \<open>itemCount\<close>, and mining the tree never raises
  \<open>KeyError\<close>.
\<close>

theorem nodeLink_itemCount_invariant:
  assumes "\<forall>tc\<in>set D. 0 < snd tc"
  shows "let T = insert_all D new_Tree in
     (\<forall>r. dict_has (nodeLink T) r = (\<exists>v. map_of (itemCount T) r = Some v \<and> 0 < v)) \<and>
     (\<forall>r as. map_of (nodeLink T) r = Some as \<longrightarrow>
         map_of (itemCount T) r = Some (\<Sum>a\<leftarrow>as. count_n (nodes T ! a))) \<and>
     (\<forall>r. map_of (linkCounts T) r = map_of (itemCount T) r) \<and>
     (\<forall>r. dict_has (itemCount T) r \<longrightarrow> (\<exists>C. generateConditionalTree T r = Inr C)) \<and>
     (\<forall>n ms pid e. genAllFrequentPatterns n ms (pid, T) = Inl e \<longrightarrow> e \<noteq> KeyError)"
proof -
  let ?T = "insert_all D new_Tree" and ?V = "all_visits D"
  obtain pth where inv: "tree_inv ?T ?V pth" using built_inv by blast
  then have lk: "\<And>r. (map_of (nodeLink ?T) r \<noteq> None) = (\<exists>v\<in>set ?V. last (fst v) = r)"
    and dk: "distinct (map fst (nodeLink ?T))"
    and ci: "\<And>r. map_of (itemCount ?T) r =
          (if \<exists>v\<in>set ?V. last (fst v) = r
           then Some (\<Sum>v\<leftarrow>filter (\<lambda>v. last (fst v) = r) ?V. snd v) else None)"
    and si: "\<And>r P. (\<Sum>a\<leftarrow>filter (\<lambda>a. P (prefix (nodes ?T ! a))) (link ?T r). count_n (nodes ?T ! a)) =
            (\<Sum>v\<leftarrow>filter (\<lambda>v. last (fst v) = r \<and> P (takeWhile (\<lambda>x. x \<noteq> r) (fst v))) ?V. snd v)"
    unfolding tree_inv_def link_inv_def count_inv_def sum_inv_def by blast+
  have pos: "0 < (\<Sum>v\<leftarrow>filter (\<lambda>v. last (fst v) = r) ?V. snd v)"
    if "\<exists>v\<in>set ?V. last (fst v) = r" for r
  proof (rule sum_list_pos')
    from that show "filter (\<lambda>v. last (fst v) = r) ?V \<noteq> []" by (auto simp: filter_empty_conv)
    show "\<forall>x\<in>set (filter (\<lambda>v. last (fst v) = r) ?V). 0 < snd x"
      using all_visits_snd[of _ D] assms by fastforce
  qed
  have 1: "dict_has (nodeLink ?T) r = (\<exists>v. map_of (itemCount ?T) r = Some v \<and> 0 < v)" for r
    unfolding dict_has_def lk ci using pos[of r] by auto
  have sums: "(\<Sum>a\<leftarrow>link ?T r. count_n (nodes ?T ! a)) =
              (\<Sum>v\<leftarrow>filter (\<lambda>v. last (fst v) = r) ?V. snd v)" for r
    using si[of "\<lambda>_. True" r] by simp
  have 2: "map_of (itemCount ?T) r = Some (\<Sum>a\<leftarrow>as. count_n (nodes ?T ! a))"
    if "map_of (nodeLink ?T) r = Some as" for r as
  proof -
    from that have "link ?T r = as" by (simp add: link_def)
    moreover from that lk[of r] have "\<exists>v\<in>set ?V. last (fst v) = r" by simp
    ultimately show ?thesis using sums[of r] ci[of r] by simp
  qed
  have 3: "map_of (linkCounts ?T) r = map_of (itemCount ?T) r" for r
  proof -
    have "map_of (linkCounts ?T) r =
          map_option (\<lambda>as. \<Sum>a\<leftarrow>as. count_n (nodes ?T ! a)) (map_of (nodeLink ?T) r)"
      unfolding linkCounts_def by (simp add: map_of_map)
    then show ?thesis
    proof (cases "map_of (nodeLink ?T) r")
      case None
      with lk[of r] ci[of r] show ?thesis
        using \<open>map_of (linkCounts ?T) r = _\<close> by simp
    next
      case (Some as)
      with 2[OF Some] show ?thesis using \<open>map_of (linkCounts ?T) r = _\<close> by simp
    qed
  qed
  have keys: "dict_has (itemCount ?T) r \<Longrightarrow> dict_has (nodeLink ?T) r" for r
    unfolding dict_has_def lk ci by (auto split: if_splits)
  have 4: "\<exists>C. generateConditionalTree ?T r = Inr C" if "dict_has (itemCount ?T) r" for r
    using keys[OF that] by (simp add: generateConditionalTree_eq)
  have 5: "e \<noteq> KeyError" if g: "genAllFrequentPatterns n ms (pid, ?T) = Inl e" for n ms pid e
  proof -
    from foldE_error[OF g[unfolded genAllFrequentPatterns_def Let_def fst_conv snd_conv]]
    obtain x s' where x: "x \<in> set (map fst (sort_key snd (itemCount ?T)))"
      and f: "(case getPartitionId n x of Inl e \<Rightarrow> Inl e
               | Inr p \<Rightarrow> if p = pid
                   then (case genFreqPatterns ms x [x] ?T of Inl e \<Rightarrow> Inl e
                         | Inr fp \<Rightarrow> Inr (dict_update s' fp))
                   else Inr s') = Inl e" by blast
    from x have "dict_has (itemCount ?T) x" by (auto simp: dict_has_def map_of_eq_None_iff)
    then have has: "dict_has (nodeLink ?T) x" by (rule keys)
    show ?thesis
    proof (cases "n = 0")
      case True
      with f show ?thesis by (simp add: getPartitionId_def)
    next
      case False
      with f have "genFreqPatterns ms x [x] ?T = Inl e"
        by (auto simp: getPartitionId_def split: if_splits sum.splits)
      from genFreq_no_KeyError(1)[OF this has] show ?thesis .
    qed
  qed
  from 1 2 3 4 5 show ?thesis unfolding Let_def by blast
qed

theorem nodeLink_itemCount_invariant_witness:
  "nodeLink (insert_all [([0, 1], 1), ([0, 2], 3)] new_Tree) = [(0, [1]), (1, [2]), (2, [3])] \<and>
   itemCount (insert_all [([0, 1], 1), ([0, 2], 3)] new_Tree) = [(0, 4), (1, 1), (2, 3)] \<and>
   map_of (itemCount (insert_all [([0, 1], 1), ([0, 2], 3)] new_Tree)) 0 =
     Some (\<Sum>a\<leftarrow>[1]. count_n (nodes (insert_all [([0, 1], 1), ([0, 2], 3)] new_Tree) ! a)) \<and>
   map_of (linkCounts (insert_all [([0, 1], 1), ([0, 2], 3)] new_Tree)) 2 = Some 3"
proof -
  have h: "\<forall>tc\<in>set [([0, 1], 1), ([0, 2], 3 :: int)]. 0 < snd tc" by simp
  have a: "nodeLink (insert_all [([0, 1], 1), ([0, 2], 3)] new_Tree) = [(0, [1]), (1, [2]), (2, [3])]"
    by code_simp
  have b: "itemCount (insert_all [([0, 1], 1), ([0, 2], 3)] new_Tree) = [(0, 4), (1, 1), (2, 3)]"
    by code_simp
  from nodeLink_itemCount_invariant[OF h]
  have c: "\<forall>r as. map_of (nodeLink (insert_all [([0, 1], 1), ([0, 2], 3)] new_Tree)) r = Some as \<longrightarrow>
         map_of (itemCount (insert_all [([0, 1], 1), ([0, 2], 3)] new_Tree)) r =
           Some (\<Sum>a\<leftarrow>as. count_n (nodes (insert_all [([0, 1], 1), ([0, 2], 3)] new_Tree) ! a))"
    and d: "\<forall>r. map_of (linkCounts (insert_all [([0, 1], 1), ([0, 2], 3)] new_Tree)) r =
         map_of (itemCount (insert_all [([0, 1], 1), ([0, 2], 3)] new_Tree)) r"
    unfolding Let_def by blast+
  have "map_of (nodeLink (insert_all [([0, 1], 1), ([0, 2], 3)] new_Tree)) 0 = Some [1]"
    unfolding a by simp
  with c have c': "map_of (itemCount (insert_all [([0, 1], 1), ([0, 2], 3)] new_Tree)) 0 =
     Some (\<Sum>a\<leftarrow>[1]. count_n (nodes (insert_all [([0, 1], 1), ([0, 2], 3)] new_Tree) ! a))"
    by blast
  have "map_of (itemCount (insert_all [([0, 1], 1), ([0, 2], 3)] new_Tree)) 2 = Some 3"
    unfolding b by simp
  with d have d': "map_of (linkCounts (insert_all [([0, 1], 1), ([0, 2], 3)] new_Tree)) 2 = Some 3"
    by simp
  from a b c' d' show ?thesis by blast
qed


section \<open>The order of the insertions\<close>

lemma node_view_char:
  assumes "tree_inv T V pth"
  shows "node_view T p =
     (if p \<in> insert [] (fst ` set V)
      then Some (if p = [] then None else Some (last p),
                 if p = [] then 0 else wt V p,
                 if p = [] then [] else takeWhile (\<lambda>x. x \<noteq> last p) p,
                 {r. p @ [r] \<in> fst ` set V})
      else None)"
proof -
  let ?n = "length (nodes T)"
  from assms have st: "store_inv T V pth" and nd: "node_inv T V pth" and ch: "child_inv T pth"
    unfolding tree_inv_def by auto
  from st have img: "pth ` {..<?n} = insert [] (fst ` set V)" and z: "pth 0 = []"
    and inj: "inj_on pth {..<?n}" and n0: "0 < ?n"
    and rt: "item (nodes T ! 0) = None" "count_n (nodes T ! 0) = 0" "prefix (nodes T ! 0) = []"
    unfolding store_inv_def by blast+
  show ?thesis
  proof (cases "p \<in> insert [] (fst ` set V)")
    case False
    have "node_at T p = None"
    proof (cases "node_at T p")
      case (Some a)
      then have "a < ?n" "pth a = p" using node_at_iff[OF assms] by auto
      then have "p \<in> pth ` {..<?n}" by auto
      with img False show ?thesis by simp
    qed simp
    with False show ?thesis by (simp add: node_view_def)
  next
    case True
    with img have "p \<in> pth ` {..<?n}" by simp
    then obtain a where a: "a < ?n" "pth a = p" by auto
    then have at: "node_at T p = Some a" using node_at_iff[OF assms] by simp
    have keys: "fst ` set (children (nodes T ! a)) = {r. p @ [r] \<in> fst ` set V}"
    proof -
      have "fst ` set (children (nodes T ! a)) = {r. map_of (children (nodes T ! a)) r \<noteq> None}"
        by (auto simp: map_of_eq_None_iff)
      also have "\<dots> = {r. \<exists>b. b < ?n \<and> pth b = p @ [r]}"
        using ch a unfolding child_inv_def by auto
      also have "\<dots> = {r. p @ [r] \<in> pth ` {..<?n}}" by force
      also have "\<dots> = {r. p @ [r] \<in> fst ` set V}" unfolding img by simp
      finally show ?thesis .
    qed
    show ?thesis
    proof (cases "a = 0")
      case True
      with a z have "p = []" by simp
      with True at rt keys show ?thesis by (simp add: node_view_def)
    next
      case False
      then have a0: "0 < a" by simp
      from store_path_visited[OF st a0 a(1)] a(2) have pne: "p \<noteq> []" by simp
      from nd a a0 have "item (nodes T ! a) = Some (last p)"
        "prefix (nodes T ! a) = takeWhile (\<lambda>x. x \<noteq> last p) p" "count_n (nodes T ! a) = wt V p"
        unfolding node_inv_def by auto
      with True at keys pne show ?thesis by (simp add: node_view_def)
    qed
  qed
qed

lemma mset_all_visits:
  "mset (all_visits D) = (\<Sum>tc\<in>#mset D. mset (visits (fst tc) (snd tc)))"
  by (induction D) (simp_all add: all_visits_def)

lemma sum_list_filter_mset:
  assumes "mset V = mset V'"
  shows "(\<Sum>v\<leftarrow>filter Q V. (f v :: int)) = (\<Sum>v\<leftarrow>filter Q V'. f v)"
proof -
  have "mset (filter Q V) = mset (filter Q V')"
    unfolding mset_filter assms ..
  then have "mset (map f (filter Q V)) = mset (map f (filter Q V'))"
    unfolding mset_map by (rule arg_cong)
  then have "sum_mset (mset (map f (filter Q V))) = sum_mset (mset (map f (filter Q V')))"
    by simp
  then show ?thesis by (simp only: sum_mset_sum_list)
qed

text \<open>
  C7: two lists of insertions that are permutations of each other build, from the empty
  tree, trees that hold the same node at every path (the same rank, count, prefix and
  child ranks, and a node in one exactly where the other has one), with the same number
  of nodes, and with the same \<open>itemCount\<close>.
\<close>

theorem insertion_order_independent:
  assumes "mset D = mset D'"
  shows "node_view (insert_all D' new_Tree) = node_view (insert_all D new_Tree) \<and>
         map_of (itemCount (insert_all D' new_Tree)) = map_of (itemCount (insert_all D new_Tree)) \<and>
         length (nodes (insert_all D' new_Tree)) = length (nodes (insert_all D new_Tree))"
proof -
  let ?T = "insert_all D new_Tree" and ?T' = "insert_all D' new_Tree"
  let ?V = "all_visits D" and ?V' = "all_visits D'"
  obtain pth where inv: "tree_inv ?T ?V pth" using built_inv by blast
  obtain pth' where inv': "tree_inv ?T' ?V' pth'" using built_inv by blast
  have mv: "mset ?V = mset ?V'" using assms by (simp add: mset_all_visits)
  then have sv: "set ?V = set ?V'" by (rule mset_eq_setD)
  have w: "wt ?V p = wt ?V' p" for p unfolding wt_def by (rule sum_list_filter_mset[OF mv])
  have 1: "node_view ?T' = node_view ?T"
    by (rule ext) (simp add: node_view_char[OF inv] node_view_char[OF inv'] sv w)
  from inv have ci: "\<And>r. map_of (itemCount ?T) r =
          (if \<exists>v\<in>set ?V. last (fst v) = r
           then Some (\<Sum>v\<leftarrow>filter (\<lambda>v. last (fst v) = r) ?V. snd v) else None)"
    unfolding tree_inv_def count_inv_def by blast
  from inv' have ci': "\<And>r. map_of (itemCount ?T') r =
          (if \<exists>v\<in>set ?V'. last (fst v) = r
           then Some (\<Sum>v\<leftarrow>filter (\<lambda>v. last (fst v) = r) ?V'. snd v) else None)"
    unfolding tree_inv_def count_inv_def by blast
  have 2: "map_of (itemCount ?T') = map_of (itemCount ?T)"
    by (rule ext) (simp add: ci ci' sv sum_list_filter_mset[OF mv])
  from inv have i: "inj_on pth {..<length (nodes ?T)}"
    and e: "pth ` {..<length (nodes ?T)} = insert [] (fst ` set ?V)"
    unfolding tree_inv_def store_inv_def by blast+
  from inv' have i': "inj_on pth' {..<length (nodes ?T')}"
    and e': "pth' ` {..<length (nodes ?T')} = insert [] (fst ` set ?V')"
    unfolding tree_inv_def store_inv_def by blast+
  have "length (nodes ?T') = card (pth' ` {..<length (nodes ?T')})"
    using card_image[OF i'] by simp
  also have "\<dots> = card (pth ` {..<length (nodes ?T)})" unfolding e e' sv ..
  also have "\<dots> = length (nodes ?T)" using card_image[OF i] by simp
  finally have 3: "length (nodes ?T') = length (nodes ?T)" .
  from 1 2 3 show ?thesis by blast
qed

theorem insertion_order_independent_witness:
  "mset [([0, 1], 1), ([0, 2], 3 :: int)] = mset [([0, 2], 3), ([0, 1 :: nat], 1)] \<and>
   itemCount (insert_all [([0, 1], 1), ([0, 2], 3)] new_Tree) = [(0, 4), (1, 1), (2, 3)] \<and>
   itemCount (insert_all [([0, 2], 3), ([0, 1], 1)] new_Tree) = [(0, 4), (2, 3), (1, 1)] \<and>
   node_view (insert_all [([0, 2], 3), ([0, 1], 1)] new_Tree) [0, 2] =
     node_view (insert_all [([0, 1], 1), ([0, 2], 3)] new_Tree) [0, 2] \<and>
   node_view (insert_all [([0, 1], 1), ([0, 2], 3)] new_Tree) [0, 2] = Some (Some 2, 3, [0], {})"
proof -
  have h: "mset [([0, 1], 1), ([0, 2], 3 :: int)] = mset [([0, 2], 3), ([0, 1 :: nat], 1)]"
    by (simp add: add_mset_commute)
  have a: "itemCount (insert_all [([0, 1], 1), ([0, 2], 3)] new_Tree) = [(0, 4), (1, 1), (2, 3)]"
    by code_simp
  have b: "itemCount (insert_all [([0, 2], 3), ([0, 1], 1)] new_Tree) = [(0, 4), (2, 3), (1, 1)]"
    by code_simp
  have c: "node_view (insert_all [([0, 1], 1), ([0, 2], 3)] new_Tree) [0, 2] = Some (Some 2, 3, [0], {})"
    by code_simp
  from insertion_order_independent[OF h]
  have "node_view (insert_all [([0, 2], 3), ([0, 1], 1)] new_Tree) =
        node_view (insert_all [([0, 1], 1), ([0, 2], 3)] new_Tree)" by blast
  then have d: "node_view (insert_all [([0, 2], 3), ([0, 1], 1)] new_Tree) [0, 2] =
     node_view (insert_all [([0, 1], 1), ([0, 2], 3)] new_Tree) [0, 2]" by simp
  from h a b c d show ?thesis by blast
qed


section \<open>Ascending transactions: ranks in prefixes and the depth of mining\<close>

lemma sorted_distinct_take_less:
  assumes "sorted t" "distinct t" "k < length t"
  shows "\<forall>x\<in>set (take k t). x < (t ! k :: nat)"
proof
  fix x assume "x \<in> set (take k t)"
  then obtain j where j: "j < k" "x = t ! j" using assms(3) by (auto simp: in_set_conv_nth)
  with assms have "t ! j \<le> t ! k" "t ! j \<noteq> t ! k"
    by (auto simp: sorted_nth_mono nth_eq_iff_index_eq)
  with j show "x < t ! k" by simp
qed

lemma visit_origin:
  assumes "v \<in> set (all_visits D)"
  shows "\<exists>tc\<in>set D. \<exists>k<length (fst tc). v = (take (Suc k) (fst tc), snd tc)"
proof -
  from assms obtain tc where tc: "tc \<in> set D" "v \<in> set (visits (fst tc) (snd tc))"
    by (auto simp: all_visits_def)
  then obtain k where "k < length (fst tc)" "v = (take (Suc k) (fst tc), snd tc)"
    by (auto simp: visits_def)
  with tc(1) show ?thesis by blast
qed

lemma all_visits_last_ex:
  "(\<exists>v\<in>set (all_visits D). last (fst v) = i) = (\<exists>tc\<in>set D. i \<in> set (fst tc))"
proof -
  have "(\<exists>v\<in>set (all_visits D). last (fst v) = i) =
        (\<exists>tc\<in>set D. \<exists>v\<in>set (visits (fst tc) (snd tc)). last (fst v) = i)"
    by (auto simp: all_visits_def)
  then show ?thesis by (simp add: visits_last_ex)
qed

lemma built_keys:
  "dict_has (nodeLink (insert_all D new_Tree)) i = (\<exists>tc\<in>set D. i \<in> set (fst tc))"
proof -
  obtain pth where "tree_inv (insert_all D new_Tree) (all_visits D) pth" using built_inv by blast
  then have "(map_of (nodeLink (insert_all D new_Tree)) i \<noteq> None) =
      (\<exists>v\<in>set (all_visits D). last (fst v) = i)"
    unfolding tree_inv_def link_inv_def by blast
  then show ?thesis by (simp add: dict_has_def all_visits_last_ex)
qed

lemma built_node_origin:
  assumes "tree_inv (insert_all D new_Tree) (all_visits D) pth"
    "a < length (nodes (insert_all D new_Tree))" "0 < a"
  shows "\<exists>tc\<in>set D. \<exists>k<length (fst tc).
           pth a = take (Suc k) (fst tc) \<and>
           item (nodes (insert_all D new_Tree) ! a) = Some (fst tc ! k) \<and>
           prefix (nodes (insert_all D new_Tree) ! a) =
             takeWhile (\<lambda>x. x \<noteq> fst tc ! k) (take (Suc k) (fst tc))"
proof -
  let ?T = "insert_all D new_Tree"
  from assms(1) have st: "store_inv ?T (all_visits D) pth" and nd: "node_inv ?T (all_visits D) pth"
    unfolding tree_inv_def by auto
  from store_path_visited[OF st assms(3,2)] obtain v where "v \<in> set (all_visits D)" "fst v = pth a"
    by auto
  with visit_origin[of v D] obtain tc k where tc: "tc \<in> set D" "k < length (fst tc)"
    "pth a = take (Suc k) (fst tc)" by force
  from nd assms(2,3) have "item (nodes ?T ! a) = Some (last (pth a))"
    "prefix (nodes ?T ! a) = takeWhile (\<lambda>x. x \<noteq> last (pth a)) (pth a)"
    unfolding node_inv_def by auto
  with tc show ?thesis by (auto simp: last_take_Suc)
qed

lemma ascending_db_node_prefix:
  assumes "ascending_db D" "a < length (nodes (insert_all D new_Tree))"
    "item (nodes (insert_all D new_Tree) ! a) = Some r"
  shows "(\<forall>x\<in>set (prefix (nodes (insert_all D new_Tree) ! a)). x < r) \<and>
         sorted (prefix (nodes (insert_all D new_Tree) ! a)) \<and>
         distinct (prefix (nodes (insert_all D new_Tree) ! a))"
proof -
  let ?T = "insert_all D new_Tree"
  obtain pth where inv: "tree_inv ?T (all_visits D) pth" using built_inv by blast
  then have "item (nodes ?T ! 0) = None" unfolding tree_inv_def store_inv_def by blast
  with assms(3) have a0: "0 < a" by (cases "a = 0") auto
  from built_node_origin[OF inv assms(2) a0] obtain tc k where tc: "tc \<in> set D"
    "k < length (fst tc)" "item (nodes ?T ! a) = Some (fst tc ! k)"
    "prefix (nodes ?T ! a) = takeWhile (\<lambda>x. x \<noteq> fst tc ! k) (take (Suc k) (fst tc))" by blast
  from assms(1) tc(1) have sd: "sorted (fst tc)" "distinct (fst tc)" unfolding ascending_db_def by auto
  from tc(3) assms(3) have r: "r = fst tc ! k" by simp
  have p: "prefix (nodes ?T ! a) = take k (fst tc)"
    unfolding tc(4) by (rule takeWhile_take_distinct[OF sd(2) tc(2)])
  show ?thesis
    unfolding p r using sorted_distinct_take_less[OF sd tc(2)] sd
    by (simp add: sorted_wrt_take)
qed

lemma patternBase_ascending_db:
  assumes "ascending_db D" "tc \<in> set (patternBase (insert_all D new_Tree) r)"
  shows "sorted (fst tc) \<and> distinct (fst tc) \<and> (\<forall>x\<in>set (fst tc). x < r)"
proof -
  let ?T = "insert_all D new_Tree"
  obtain pth where inv: "tree_inv ?T (all_visits D) pth" using built_inv by blast
  from assms(2) obtain a where a: "a \<in> set (link ?T r)" "fst tc = prefix (nodes ?T ! a)"
    by (auto simp: patternBase_def)
  from inv a(1) have a': "0 < a" "a < length (nodes ?T)" "last (pth a) = r"
    unfolding tree_inv_def link_inv_def by auto
  with inv have "item (nodes ?T ! a) = Some r" unfolding tree_inv_def node_inv_def by auto
  from ascending_db_node_prefix[OF assms(1) a'(2) this] a(2) show ?thesis by simp
qed

lemma loopDepth_le:
  "\<forall>iv\<in>set l. Suc (genFreqDepth ms (fst iv) C) \<le> b \<Longrightarrow> genFreqLoopDepth ms C l \<le> b"
  by (induction l) auto

lemma ascending_db_depth:
  "ascending_db D \<Longrightarrow> genFreqDepth ms r (insert_all D new_Tree) \<le> r"
proof (induction r arbitrary: D rule: less_induct)
  case (less r)
  let ?T = "insert_all D new_Tree"
  let ?PB = "patternBase ?T r"
  show ?case
  proof (cases "generateConditionalTree ?T r")
    case (Inl e)
    then show ?thesis by simp
  next
    case (Inr C)
    then have C: "C = insert_all ?PB new_Tree"
      by (auto simp: generateConditionalTree_eq split: if_splits)
    have gpb: "ascending_db ?PB" unfolding ascending_db_def using patternBase_ascending_db[OF less.prems] by blast
    show ?thesis
    proof (cases "filterE (\<lambda>kv. ge_minSup ms (snd kv)) (linkCounts C)")
      case (Inl e)
      with Inr show ?thesis by simp
    next
      case fi: (Inr fi)
      have "\<forall>iv\<in>set fi. Suc (genFreqDepth ms (fst iv) C) \<le> r"
      proof
        fix iv assume "iv \<in> set fi"
        with filterE_subset[OF fi] have "fst iv \<in> set (map fst (linkCounts C))" by auto
        then have "dict_has (nodeLink C) (fst iv)"
          unfolding keys_linkCounts by (simp add: dict_has_def map_of_eq_None_iff)
        then obtain tc where "tc \<in> set ?PB" "fst iv \<in> set (fst tc)"
          unfolding C built_keys by blast
        with patternBase_ascending_db[OF less.prems, of tc r] have lt: "fst iv < r" by blast
        from less.IH[OF lt gpb] have "genFreqDepth ms (fst iv) C \<le> fst iv" unfolding C .
        with lt show "Suc (genFreqDepth ms (fst iv) C) \<le> r" by simp
      qed
      from loopDepth_le[OF this] Inr fi show ?thesis by simp
    qed
  qed
qed


text \<open>
  C10: in a tree built from the empty tree by inserting ascending transactions of
  distinct ranks, the prefix stored in a node holds only ranks smaller than the rank of
  the node; so every rank linked in, and every node of, \<open>generateConditionalTree(r)\<close> is
  smaller than \<open>r\<close>, and the calls of \<open>genFreqPatterns\<close> nested inside a call for \<open>r\<close> are at
  most \<open>r\<close> deep. (That the recursion ends on every tree is the termination proof of
  \<open>genFreqPatterns\<close>.)
\<close>

theorem prefix_ranks_smaller:
  assumes "\<forall>tc\<in>set D. sorted (fst tc) \<and> distinct (fst tc)"
  shows "let T = insert_all D new_Tree in
     (\<forall>a<length (nodes T). \<forall>r. item (nodes T ! a) = Some r \<longrightarrow>
         (\<forall>x\<in>set (prefix (nodes T ! a)). x < r)) \<and>
     (\<forall>r C. generateConditionalTree T r = Inr C \<longrightarrow>
         (\<forall>i. dict_has (nodeLink C) i \<longrightarrow> i < r) \<and>
         (\<forall>a<length (nodes C). \<forall>i. item (nodes C ! a) = Some i \<longrightarrow> i < r)) \<and>
     (\<forall>ms r. genFreqDepth ms r T \<le> r)"
proof -
  let ?T = "insert_all D new_Tree"
  from assms have g: "ascending_db D" unfolding ascending_db_def .
  have 1: "\<forall>x\<in>set (prefix (nodes ?T ! a)). x < r"
    if "a < length (nodes ?T)" "item (nodes ?T ! a) = Some r" for a r
    using ascending_db_node_prefix[OF g that] by blast
  have 2: "(\<forall>i. dict_has (nodeLink C) i \<longrightarrow> i < r) \<and>
         (\<forall>a<length (nodes C). \<forall>i. item (nodes C ! a) = Some i \<longrightarrow> i < r)"
    if c: "generateConditionalTree ?T r = Inr C" for r C
  proof -
    let ?PB = "patternBase ?T r"
    from c have C: "C = insert_all ?PB new_Tree"
      by (auto simp: generateConditionalTree_eq split: if_splits)
    have a: "i < r" if "dict_has (nodeLink C) i" for i
    proof -
      from that obtain tc where "tc \<in> set ?PB" "i \<in> set (fst tc)" unfolding C built_keys by blast
      with patternBase_ascending_db[OF g, of tc r] show ?thesis by blast
    qed
    have b: "i < r" if "a < length (nodes C)" "item (nodes C ! a) = Some i" for a i
    proof -
      obtain pth where inv: "tree_inv C (all_visits ?PB) pth" unfolding C using built_inv by blast
      then have "item (nodes C ! 0) = None" unfolding tree_inv_def store_inv_def by blast
      with that(2) have a0: "0 < a" by (cases "a = 0") auto
      from built_node_origin[OF inv[unfolded C] that(1)[unfolded C] a0] that(2)
      obtain tc k where "tc \<in> set ?PB" "k < length (fst tc)" "i = fst tc ! k"
        unfolding C by auto
      with patternBase_ascending_db[OF g, of tc r] show ?thesis by auto
    qed
    from a b show ?thesis by blast
  qed
  have 3: "genFreqDepth ms r ?T \<le> r" for ms r by (rule ascending_db_depth[OF g])
  from 1 2 3 show ?thesis unfolding Let_def by blast
qed

theorem prefix_ranks_smaller_witness:
  "genFreqDepth (PInt 1) 2 (insert_all [([0, 1, 2], 1), ([0, 2], 1)] new_Tree) = 2 \<and>
   genFreqDepth (PInt 1) 2 (insert_all [([0, 1, 2], 1), ([0, 2], 1)] new_Tree) \<le> 2 \<and>
   map_sum id nodeLink
     (generateConditionalTree (insert_all [([0, 1, 2], 1), ([0, 2], 1)] new_Tree) 2) =
     Inr [(0, [1]), (1, [2])]"
proof -
  have h: "\<forall>tc\<in>set [([0, 1, 2 :: nat], 1 :: int), ([0, 2], 1)]. sorted (fst tc) \<and> distinct (fst tc)"
    by simp
  have a: "genFreqDepth (PInt 1) 2 (insert_all [([0, 1, 2], 1), ([0, 2], 1)] new_Tree) = 2"
    by code_simp
  have b: "map_sum id nodeLink
     (generateConditionalTree (insert_all [([0, 1, 2], 1), ([0, 2], 1)] new_Tree) 2) =
     Inr [(0, [1]), (1, [2])]"
    by code_simp
  from prefix_ranks_smaller[OF h]
  have c: "genFreqDepth (PInt 1) 2 (insert_all [([0, 1, 2], 1), ([0, 2], 1)] new_Tree) \<le> 2"
    unfolding Let_def by blast
  from a b c show ?thesis by blast
qed


section \<open>Projection of a transaction onto the partitions\<close>

lemma foldE_pure: "(\<And>x s. f x s = Inr (g x s)) \<Longrightarrow> foldE f xs s = Inr (fold g xs s)"
  by (induction xs arbitrary: s) auto

lemma foldE_filter:
  "foldE (\<lambda>x s. if P x then f x s else Inr s) xs s = foldE f (filter P xs) s"
  by (induction xs arbitrary: s) (auto split: sum.splits)

lemma genCondTransaction_pure:
  assumes "n \<noteq> 0"
  shows "genCondTransaction n transaction rank =
           Inr (fold (project_step n (sort (List.map_filter (map_of rank) transaction)))
                  (rev (sort (List.map_filter (map_of rank) transaction))) [])"
  unfolding genCondTransaction_def Let_def
  by (rule foldE_pure) (simp add: getPartitionId_def assms project_step_def)

lemma project_fold_map:
  "map_of (fold (project_step n nt) xs d) p =
     (case map_of d p of
        Some v \<Rightarrow> Some v
      | None \<Rightarrow> map_option (\<lambda>i. take (index_of nt i + 1) nt) (find (\<lambda>i. int i mod n = p) xs))"
proof (induction xs arbitrary: d)
  case Nil
  then show ?case by (simp split: option.splits)
next
  case (Cons x xs)
  have "map_of (fold (project_step n nt) (x # xs) d) p =
        (case map_of (project_step n nt x d) p of
           Some v \<Rightarrow> Some v
         | None \<Rightarrow> map_option (\<lambda>i. take (index_of nt i + 1) nt) (find (\<lambda>i. int i mod n = p) xs))"
    by (simp only: fold_simps Cons.IH)
  also have "map_of (project_step n nt x d) p =
        (if map_of d (int x mod n) = None \<and> int x mod n = p
         then Some (take (index_of nt x + 1) nt) else map_of d p)"
    by (auto simp: project_step_def dict_has_def map_of_dict_set)
  finally show ?case by (auto split: option.splits)
qed

lemma project_fold_distinct:
  "distinct (map fst d) \<Longrightarrow> distinct (map fst (fold (project_step n nt) xs d))"
  by (induction xs arbitrary: d) (auto simp: project_step_def distinct_dict_set)

lemma find_desc_max:
  "sorted (rev ys) \<Longrightarrow> find P ys = Some i \<Longrightarrow> r \<in> set ys \<Longrightarrow> P r \<Longrightarrow> r \<le> (i::nat)"
proof (induction ys)
  case Nil
  then show ?case by simp
next
  case (Cons y ys)
  show ?case
  proof (cases "P y")
    case True
    with Cons.prems have "i = y" by simp
    moreover from Cons.prems(1) have "\<forall>z\<in>set ys. z \<le> y" by (auto simp: sorted_append)
    ultimately show ?thesis using Cons.prems(3) by auto
  next
    case False
    with Cons.prems show ?thesis
      using Cons.IH by (auto simp: sorted_append)
  qed
qed

lemma index_of_nth: "x \<in> set xs \<Longrightarrow> index_of xs x < length xs \<and> xs ! index_of xs x = x"
  unfolding index_of_def by (induction xs) auto

lemma find_SomeD: "find P xs = Some x \<Longrightarrow> x \<in> set xs \<and> P x"
  by (induction xs) (auto split: if_splits)

text \<open>
  C2: with a partition count other than zero \<open>genCondTransaction\<close> returns a dictionary
  that has the key \<open>p\<close> exactly when the sorted rank sequence of the transaction holds a
  rank \<open>r\<close> with \<open>r mod numPartitions = p\<close>; the value stored for \<open>p\<close> is the prefix of the
  sorted rank sequence that ends at, and includes, the highest rank owned by \<open>p\<close>; a
  dictionary has every key once, so no partition gets two pairs.
\<close>

theorem genCondTransaction_projection:
  assumes "n \<noteq> 0"
  shows "\<exists>res. genCondTransaction n transaction rank = Inr res \<and>
           distinct (map fst res) \<and>
           (\<forall>p. (p \<in> fst ` set res) =
                (\<exists>r\<in>set (sort (List.map_filter (map_of rank) transaction)). int r mod n = p)) \<and>
           (\<forall>pp\<in>set res.
              \<exists>k<length (sort (List.map_filter (map_of rank) transaction)).
                snd pp = take (Suc k) (sort (List.map_filter (map_of rank) transaction)) \<and>
                int (sort (List.map_filter (map_of rank) transaction) ! k) mod n = fst pp \<and>
                (\<forall>r\<in>set (sort (List.map_filter (map_of rank) transaction)).
                    int r mod n = fst pp \<longrightarrow>
                    r \<le> sort (List.map_filter (map_of rank) transaction) ! k))"
proof -
  let ?nt = "sort (List.map_filter (map_of rank) transaction)"
  let ?res = "fold (project_step n ?nt) (rev ?nt) []"
  have eq: "genCondTransaction n transaction rank = Inr ?res"
    by (rule genCondTransaction_pure[OF assms])
  have d: "distinct (map fst ?res)" by (rule project_fold_distinct) simp
  have m: "map_of ?res p = map_option (\<lambda>i. take (index_of ?nt i + 1) ?nt)
             (find (\<lambda>i. int i mod n = p) (rev ?nt))" for p
    by (simp add: project_fold_map)
  have keys: "(p \<in> fst ` set ?res) = (\<exists>r\<in>set ?nt. int r mod n = p)" for p
  proof -
    have "(p \<in> fst ` set ?res) = (map_of ?res p \<noteq> None)"
      by (simp add: map_of_eq_None_iff)
    also have "\<dots> = (find (\<lambda>i. int i mod n = p) (rev ?nt) \<noteq> None)"
      by (simp add: m)
    also have "\<dots> = (\<exists>r\<in>set ?nt. int r mod n = p)"
      by (auto simp: find_None_iff)
    finally show ?thesis .
  qed
  have proj: "\<exists>k<length ?nt. snd pp = take (Suc k) ?nt \<and> int (?nt ! k) mod n = fst pp \<and>
                (\<forall>r\<in>set ?nt. int r mod n = fst pp \<longrightarrow> r \<le> ?nt ! k)"
    if pp: "pp \<in> set ?res" for pp
  proof -
    from pp d have "map_of ?res (fst pp) = Some (snd pp)" by simp
    then obtain i where i: "find (\<lambda>i. int i mod n = fst pp) (rev ?nt) = Some i"
      and s: "snd pp = take (index_of ?nt i + 1) ?nt"
      unfolding m by auto
    from find_SomeD[OF i] have iin: "i \<in> set ?nt" and own: "int i mod n = fst pp"
      by simp_all
    have "sorted (rev (rev ?nt))" by simp
    from find_desc_max[OF this i]
    have mx: "\<forall>r\<in>set ?nt. int r mod n = fst pp \<longrightarrow> r \<le> i" by simp
    from index_of_nth[OF iin] show ?thesis
      using s own mx by (intro exI[of _ "index_of ?nt i"]) simp
  qed
  show ?thesis using eq d keys proj by blast
qed

theorem genCondTransaction_projection_witness:
  "(2::int) \<noteq> 0 \<and>
   genCondTransaction 2 [''b'', ''z'', ''a'', ''c''] [(''a'', 0), (''b'', 1), (''c'', 2)] =
     Inr [(0, [0, 1, 2]), (1, [0, 1])] \<and>
   (\<exists>res. genCondTransaction 2 [''b'', ''z'', ''a'', ''c''] [(''a'', 0), (''b'', 1), (''c'', 2)] = Inr res \<and>
          distinct (map fst res))"
proof -
  have h: "(2::int) \<noteq> 0" by simp
  have v: "genCondTransaction 2 [''b'', ''z'', ''a'', ''c''] [(''a'', 0), (''b'', 1), (''c'', 2)] =
     Inr [(0, [0, 1, 2]), (1, [0, 1])]" by code_simp
  from genCondTransaction_projection[OF h, of "[''b'', ''z'', ''a'', ''c'']" "[(''a'', 0), (''b'', 1), (''c'', 2)]"]
  obtain res where "genCondTransaction 2 [''b'', ''z'', ''a'', ''c''] [(''a'', 0), (''b'', 1), (''c'', 2)] = Inr res"
    "distinct (map fst res)" by blast
  with h v show ?thesis by blast
qed


section \<open>The driving loop of a partition\<close>

lemma foldE_invariant:
  assumes "foldE f xs s = Inr r" "I s"
    "\<And>x s s'. x \<in> set xs \<Longrightarrow> I s \<Longrightarrow> f x s = Inr s' \<Longrightarrow> I s'"
  shows "I r"
  using assms
proof (induction xs arbitrary: s)
  case Nil
  then show ?case by simp
next
  case (Cons x xs)
  from Cons.prems(1) obtain s' where s': "f x s = Inr s'" "foldE f xs s' = Inr r"
    by (auto split: sum.splits)
  from Cons.prems(3)[OF _ Cons.prems(2) s'(1)] have "I s'" by simp
  show ?case
  proof (rule Cons.IH[OF s'(2) \<open>I s'\<close>])
    fix y t t' assume "y \<in> set xs" "I t" "f y t = Inr t'"
    then show "I t'" using Cons.prems(3)[of y t t'] by simp
  qed
qed

lemma genFreq_keys:
  "genFreqPatterns ms it pre tr = Inr res \<Longrightarrow>
     \<forall>k\<in>fst ` set res. \<exists>ys. ys \<noteq> [] \<and> k = pre @ ys"
  "genFreqLoop ms pre C l fp = Inr res \<Longrightarrow>
     \<forall>k\<in>fst ` set fp. \<exists>ys. ys \<noteq> [] \<and> k = pre @ ys \<Longrightarrow>
     \<forall>k\<in>fst ` set res. \<exists>ys. ys \<noteq> [] \<and> k = pre @ ys"
proof (induction ms it pre tr and ms pre C l fp arbitrary: res and res
    rule: genFreqPatterns_genFreqLoop.induct)
  case (1 ms it pre tr)
  from "1.prems" obtain C fi where C: "generateConditionalTree tr it = Inr C"
    "filterE (\<lambda>kv. ge_minSup ms (snd kv)) (linkCounts C) = Inr fi"
    "genFreqLoop ms pre C fi [] = Inr res"
    by (auto split: sum.splits)
  from "1.IH"[OF C(1,2,3)] show ?case by simp
next
  case (2 ms pre C fp)
  then show ?case by simp
next
  case (3 ms pre C iv rest fp)
  from "3.prems"(1) obtain sub where sub: "genFreqPatterns ms (fst iv) (pre @ [fst iv]) C = Inr sub"
    "genFreqLoop ms pre C rest (dict_update (dict_set fp (pre @ [fst iv]) (snd iv)) sub) = Inr res"
    by (auto split: sum.splits)
  from "3.IH"(1)[OF sub(1)] have s: "\<forall>k\<in>fst ` set sub. \<exists>ys. ys \<noteq> [] \<and> k = pre @ ys"
    by (metis append.assoc append_is_Nil_conv)
  have "\<forall>k\<in>fst ` set (dict_update (dict_set fp (pre @ [fst iv]) (snd iv)) sub).
          \<exists>ys. ys \<noteq> [] \<and> k = pre @ ys"
    unfolding keys_dict_update keys_dict_set' using s "3.prems"(2) by blast
  from "3.IH"(2)[OF sub(1) sub(2) this] show ?case .
qed

text \<open>
  C6: \<open>genAllFrequentPatterns\<close> goes through the ranks of the tree in ascending order of
  \<open>itemCount\<close> (a sorted rearrangement of the dictionary), and with a partition count other
  than zero it calls \<open>genFreqPatterns\<close> exactly for the ranks whose owner is the partition
  of the tree: its result is the loop over the owned ranks alone, and every pattern it
  returns starts with a rank of the tree that this partition owns.
\<close>

theorem genAllFrequentPatterns_owner:
  assumes "n \<noteq> 0"
  shows "sorted (map snd (sort_key snd (itemCount tr))) \<and>
         mset (sort_key snd (itemCount tr)) = mset (itemCount tr) \<and>
         genAllFrequentPatterns n ms (pid, tr) =
           foldE (\<lambda>it fp. case genFreqPatterns ms it [it] tr of
                             Inl e \<Rightarrow> Inl e
                           | Inr sub \<Rightarrow> Inr (dict_update fp sub))
             (filter (\<lambda>it. int it mod n = pid) (map fst (sort_key snd (itemCount tr)))) [] \<and>
         (\<forall>res. genAllFrequentPatterns n ms (pid, tr) = Inr res \<longrightarrow>
            (\<forall>pc\<in>set res. \<exists>it ys. fst pc = it # ys \<and> ys \<noteq> [] \<and> int it mod n = pid \<and>
                                    dict_has (itemCount tr) it))"
proof -
  let ?il = "map fst (sort_key snd (itemCount tr))"
  let ?f = "\<lambda>it fp. case genFreqPatterns ms it [it] tr of
                             Inl e \<Rightarrow> Inl e
                           | Inr sub \<Rightarrow> Inr (dict_update fp sub)"
  have 1: "sorted (map snd (sort_key snd (itemCount tr)))" by simp
  have 2: "mset (sort_key snd (itemCount tr)) = mset (itemCount tr)" by simp
  have "genAllFrequentPatterns n ms (pid, tr) =
          foldE (\<lambda>it fp. if int it mod n = pid then ?f it fp else Inr fp) ?il []"
    unfolding genAllFrequentPatterns_def Let_def getPartitionId_def fst_conv snd_conv
    using assms by simp
  then have 3: "genAllFrequentPatterns n ms (pid, tr) = foldE ?f (filter (\<lambda>it. int it mod n = pid) ?il) []"
    by (simp only: foldE_filter)
  have 4: "\<forall>pc\<in>set res. \<exists>it ys. fst pc = it # ys \<and> ys \<noteq> [] \<and> int it mod n = pid \<and>
                                    dict_has (itemCount tr) it"
    if r: "genAllFrequentPatterns n ms (pid, tr) = Inr res" for res
  proof (rule foldE_invariant[where I = "\<lambda>fp. \<forall>pc\<in>set fp. \<exists>it ys. fst pc = it # ys \<and> ys \<noteq> [] \<and>
        int it mod n = pid \<and> dict_has (itemCount tr) it", OF r[unfolded 3]])
    show "\<forall>pc\<in>set []. \<exists>it ys. fst pc = it # ys \<and> ys \<noteq> [] \<and> int it mod n = pid \<and>
        dict_has (itemCount tr) it" by simp
  next
    fix x s s'
    assume x: "x \<in> set (filter (\<lambda>it. int it mod n = pid) ?il)"
      and I: "\<forall>pc\<in>set s. \<exists>it ys. fst pc = it # ys \<and> ys \<noteq> [] \<and> int it mod n = pid \<and>
        dict_has (itemCount tr) it"
      and f: "?f x s = Inr s'"
    from f obtain sub where sub: "genFreqPatterns ms x [x] tr = Inr sub" "s' = dict_update s sub"
      by (auto split: sum.splits)
    from x have own: "int x mod n = pid" and "x \<in> fst ` set (itemCount tr)" by auto
    then have has: "dict_has (itemCount tr) x"
      by (simp add: dict_has_def map_of_eq_None_iff)
    have "\<exists>it ys. fst pc = it # ys \<and> ys \<noteq> [] \<and> int it mod n = pid \<and> dict_has (itemCount tr) it"
      if "pc \<in> set sub" for pc
    proof -
      from genFreq_keys(1)[OF sub(1)] that obtain ys where "ys \<noteq> []" "fst pc = [x] @ ys"
        by force
      with own has show ?thesis by auto
    qed
    with I set_dict_update[of s sub] show "\<forall>pc\<in>set s'. \<exists>it ys. fst pc = it # ys \<and> ys \<noteq> [] \<and>
        int it mod n = pid \<and> dict_has (itemCount tr) it"
      unfolding sub(2) by blast
  qed
  from 1 2 3 4 show ?thesis by blast
qed

theorem genAllFrequentPatterns_owner_witness:
  "(2::int) \<noteq> 0 \<and>
   map fst (sort_key snd (itemCount (buildTree new_Tree [[0, 1, 2], [0, 1], [0, 2]]))) = [1, 2, 0] \<and>
   genAllFrequentPatterns 2 (PInt 1) (0, buildTree new_Tree [[0, 1, 2], [0, 1], [0, 2]]) =
     Inr [([2, 0], 2), ([2, 1], 1), ([2, 1, 0], 1)] \<and>
   sorted (map snd (sort_key snd (itemCount (buildTree new_Tree [[0, 1, 2], [0, 1], [0, 2]]))))"
proof -
  have h: "(2::int) \<noteq> 0" by simp
  have 1: "map fst (sort_key snd (itemCount (buildTree new_Tree [[0, 1, 2], [0, 1], [0, 2]]))) = [1, 2, 0]"
    by code_simp
  have 2: "genAllFrequentPatterns 2 (PInt 1) (0, buildTree new_Tree [[0, 1, 2], [0, 1], [0, 2]]) =
     Inr [([2, 0], 2), ([2, 1], 1), ([2, 1, 0], 1)]"
    by code_simp
  from genAllFrequentPatterns_owner[OF h, of "buildTree new_Tree [[0, 1, 2], [0, 1], [0, 2]]" "PInt 1" 0]
  have 3: "sorted (map snd (sort_key snd (itemCount (buildTree new_Tree [[0, 1, 2], [0, 1], [0, 2]]))))"
    by blast
  from h 1 2 3 show ?thesis by blast
qed

section \<open>Weighted support and the conditional pattern base\<close>

lemma sum_list_concat_filter:
  "(\<Sum>v\<leftarrow>filter Q (concat (map f D)). (g v :: int)) = (\<Sum>tc\<leftarrow>D. \<Sum>v\<leftarrow>filter Q (f tc). g v)"
  by (induction D) auto

lemma sum_list_if_filter:
  "(\<Sum>tc\<leftarrow>D. if P tc then (g tc :: int) else 0) = (\<Sum>tc\<leftarrow>filter P D. g tc)"
  by (induction D) auto

lemma takeWhile_nth_distinct:
  assumes "distinct t" "j < length t"
  shows "takeWhile (\<lambda>x. x \<noteq> t ! j) t = take j t"
proof -
  have t: "t = take j t @ t ! j # drop (Suc j) t" using assms(2) by (simp add: id_take_nth_drop)
  have "t ! j \<notin> set (take j t)"
    using assms by (metis distinct_take id_take_nth_drop not_distinct_conv_prefix)
  then have "takeWhile (\<lambda>x. x \<noteq> t ! j) (take j t @ t ! j # drop (Suc j) t) = take j t"
    by (subst takeWhile_append2) auto
  with t show ?thesis by simp
qed

lemma visits_cond_sum:
  assumes "distinct t"
  shows "(\<Sum>v\<leftarrow>filter (\<lambda>v. last (fst v) = r \<and> P (takeWhile (\<lambda>x. x \<noteq> r) (fst v))) (visits t c). snd v) =
         (if r \<in> set t \<and> P (takeWhile (\<lambda>x. x \<noteq> r) t) then c else 0)"
proof -
  let ?S = "{j. j < length t \<and> last (fst (take (Suc j) t, c)) = r \<and>
                 P (takeWhile (\<lambda>x. x \<noteq> r) (fst (take (Suc j) t, c)))}"
  have S: "?S = {j. j < length t \<and> t ! j = r \<and> P (takeWhile (\<lambda>x. x \<noteq> r) t)}"
  proof (rule Collect_cong)
    fix j
    show "(j < length t \<and> last (fst (take (Suc j) t, c)) = r \<and>
            P (takeWhile (\<lambda>x. x \<noteq> r) (fst (take (Suc j) t, c)))) =
          (j < length t \<and> t ! j = r \<and> P (takeWhile (\<lambda>x. x \<noteq> r) t))"
    proof (cases "j < length t \<and> t ! j = r")
      case True
      then have j: "j < length t" and r: "r = t ! j" by simp_all
      have "takeWhile (\<lambda>x. x \<noteq> r) (take (Suc j) t) = takeWhile (\<lambda>x. x \<noteq> r) t"
        unfolding r takeWhile_take_distinct[OF assms j] takeWhile_nth_distinct[OF assms j] ..
      with True show ?thesis by (simp add: last_take_Suc)
    next
      case False
      then show ?thesis by (auto simp: last_take_Suc)
    qed
  qed
  have "card ?S = (if r \<in> set t \<and> P (takeWhile (\<lambda>x. x \<noteq> r) t) then 1 else 0)"
  proof (cases "P (takeWhile (\<lambda>x. x \<noteq> r) t)")
    case True
    then have "?S = {j. j < length t \<and> t ! j = r}" unfolding S by simp
    with distinct_positions[OF assms, of r] True show ?thesis by simp
  next
    case False
    then have "?S = {}" unfolding S by simp
    with False show ?thesis by simp
  qed
  then show ?thesis
    using sum_list_visits[of "\<lambda>v. last (fst v) = r \<and> P (takeWhile (\<lambda>x. x \<noteq> r) (fst v))" t c]
    by simp
qed

lemma all_visits_cond_sum:
  assumes "\<forall>tc\<in>set D. distinct (fst tc)"
  shows "(\<Sum>v\<leftarrow>filter (\<lambda>v. last (fst v) = r \<and> P (takeWhile (\<lambda>x. x \<noteq> r) (fst v))) (all_visits D). snd v) =
         (\<Sum>tc\<leftarrow>filter (\<lambda>tc. r \<in> set (fst tc) \<and> P (takeWhile (\<lambda>x. x \<noteq> r) (fst tc))) D. snd tc)"
proof -
  have "(\<Sum>v\<leftarrow>filter (\<lambda>v. last (fst v) = r \<and> P (takeWhile (\<lambda>x. x \<noteq> r) (fst v))) (all_visits D). snd v) =
        (\<Sum>tc\<leftarrow>D. \<Sum>v\<leftarrow>filter (\<lambda>v. last (fst v) = r \<and> P (takeWhile (\<lambda>x. x \<noteq> r) (fst v)))
                        (visits (fst tc) (snd tc)). snd v)"
    unfolding all_visits_def by (rule sum_list_concat_filter)
  also have "\<dots> = (\<Sum>tc\<leftarrow>D. if r \<in> set (fst tc) \<and> P (takeWhile (\<lambda>x. x \<noteq> r) (fst tc))
                           then snd tc else 0)"
    by (rule arg_cong[where f = sum_list], rule map_cong[OF refl])
       (use assms in \<open>simp add: visits_cond_sum\<close>)
  also have "\<dots> = (\<Sum>tc\<leftarrow>filter (\<lambda>tc. r \<in> set (fst tc) \<and> P (takeWhile (\<lambda>x. x \<noteq> r) (fst tc))) D. snd tc)"
    by (rule sum_list_if_filter)
  finally show ?thesis .
qed

lemma patternBase_sum:
  assumes "\<forall>tc\<in>set D. distinct (fst tc)"
  shows "(\<Sum>tc\<leftarrow>filter (\<lambda>tc. Q (fst tc)) (patternBase (insert_all D new_Tree) r). snd tc) =
         (\<Sum>tc\<leftarrow>filter (\<lambda>tc. r \<in> set (fst tc) \<and> Q (takeWhile (\<lambda>x. x \<noteq> r) (fst tc))) D. snd tc)"
proof -
  let ?T = "insert_all D new_Tree"
  obtain pth where "tree_inv ?T (all_visits D) pth" using built_inv by blast
  then have si: "(\<Sum>a\<leftarrow>filter (\<lambda>a. Q (prefix (nodes ?T ! a))) (link ?T r). count_n (nodes ?T ! a)) =
            (\<Sum>v\<leftarrow>filter (\<lambda>v. last (fst v) = r \<and> Q (takeWhile (\<lambda>x. x \<noteq> r) (fst v))) (all_visits D). snd v)"
    unfolding tree_inv_def sum_inv_def by blast
  have "(\<Sum>tc\<leftarrow>filter (\<lambda>tc. Q (fst tc)) (patternBase ?T r). snd tc) =
        (\<Sum>a\<leftarrow>filter (\<lambda>a. Q (prefix (nodes ?T ! a))) (link ?T r). count_n (nodes ?T ! a))"
    by (simp add: patternBase_def filter_map comp_def)
  then show ?thesis unfolding si all_visits_cond_sum[OF assms] .
qed

lemma sorted_distinct_takeWhile_set:
  assumes "sorted t" "distinct t" "r \<in> set t"
  shows "set (takeWhile (\<lambda>x. x \<noteq> r) t) = {x \<in> set t. x < (r::nat)}"
proof -
  from assms(3) obtain j where j: "j < length t" "t ! j = r" by (auto simp: in_set_conv_nth)
  have tw: "takeWhile (\<lambda>x. x \<noteq> r) t = take j t"
    using takeWhile_nth_distinct[OF assms(2) j(1)] j(2) by simp
  show ?thesis
  proof (intro set_eqI iffI)
    fix x assume "x \<in> set (takeWhile (\<lambda>x. x \<noteq> r) t)"
    then have x: "x \<in> set (take j t)" unfolding tw .
    with sorted_distinct_take_less[OF assms(1,2) j(1)] j(2) have "x < r" by auto
    with x show "x \<in> {x \<in> set t. x < r}" by (auto dest: in_set_takeD)
  next
    fix x assume "x \<in> {x \<in> set t. x < r}"
    then obtain i where i: "i < length t" "t ! i = x" "x < r" by (auto simp: in_set_conv_nth)
    have "i < j"
    proof (rule ccontr)
      assume "\<not> i < j"
      then have "j \<le> i" by simp
      with assms(1) i(1) have "t ! j \<le> t ! i" by (simp add: sorted_nth_mono)
      with i(2,3) j(2) show False by simp
    qed
    with i j(1) have "x \<in> set (take j t)" by (auto simp: in_set_conv_nth)
    then show "x \<in> set (takeWhile (\<lambda>x. x \<noteq> r) t)" unfolding tw .
  qed
qed

lemma cond_wsupp:
  assumes "ascending_db D"
  shows "wsupp (patternBase (insert_all D new_Tree) r) X =
           (if \<forall>x\<in>X. x < r then wsupp D (insert r X) else 0)"
proof -
  from assms have d: "\<forall>tc\<in>set D. distinct (fst tc)" unfolding ascending_db_def by blast
  have eq: "(r \<in> set (fst tc) \<and> X \<subseteq> set (takeWhile (\<lambda>x. x \<noteq> r) (fst tc))) =
            ((\<forall>x\<in>X. x < r) \<and> insert r X \<subseteq> set (fst tc))" if "tc \<in> set D" for tc
  proof (cases "r \<in> set (fst tc)")
    case True
    from assms that have "sorted (fst tc)" "distinct (fst tc)" unfolding ascending_db_def by auto
    from sorted_distinct_takeWhile_set[OF this True] True show ?thesis by auto
  next
    case False
    then show ?thesis by simp
  qed
  have "wsupp (patternBase (insert_all D new_Tree) r) X =
        (\<Sum>tc\<leftarrow>filter (\<lambda>tc. r \<in> set (fst tc) \<and> X \<subseteq> set (takeWhile (\<lambda>x. x \<noteq> r) (fst tc))) D. snd tc)"
    unfolding wsupp_def by (rule patternBase_sum[OF d])
  also have "filter (\<lambda>tc. r \<in> set (fst tc) \<and> X \<subseteq> set (takeWhile (\<lambda>x. x \<noteq> r) (fst tc))) D =
             filter (\<lambda>tc. (\<forall>x\<in>X. x < r) \<and> insert r X \<subseteq> set (fst tc)) D"
    by (rule filter_cong[OF refl]) (rule eq)
  finally show ?thesis by (simp add: wsupp_def)
qed

lemma wt_pos:
  assumes "\<forall>v\<in>set V. 0 < snd v" "p \<in> fst ` set V"
  shows "0 < wt V p"
  unfolding wt_def
proof (rule sum_list_pos')
  from assms(2) show "filter (\<lambda>v. fst v = p) V \<noteq> []" by (auto simp: filter_empty_conv)
  from assms(1) show "\<forall>x\<in>set (filter (\<lambda>v. fst v = p) V). 0 < snd x" by simp
qed

lemma patternBase_pos:
  assumes "\<forall>tc\<in>set D. 0 < snd tc" "tc \<in> set (patternBase (insert_all D new_Tree) r)"
  shows "0 < snd tc"
proof -
  let ?T = "insert_all D new_Tree"
  obtain pth where inv: "tree_inv ?T (all_visits D) pth" using built_inv by blast
  from assms(2) obtain a where a: "a \<in> set (link ?T r)" "snd tc = count_n (nodes ?T ! a)"
    by (auto simp: patternBase_def)
  from inv a(1) have a': "0 < a" "a < length (nodes ?T)"
    unfolding tree_inv_def link_inv_def by auto
  from inv have st: "store_inv ?T (all_visits D) pth" unfolding tree_inv_def by blast
  from inv a' have c: "count_n (nodes ?T ! a) = wt (all_visits D) (pth a)"
    unfolding tree_inv_def node_inv_def by blast
  have "\<forall>v\<in>set (all_visits D). 0 < snd v" using all_visits_snd[of _ D] assms(1) by fastforce
  from wt_pos[OF this store_path_visited(1)[OF st a']] show ?thesis unfolding a(2) c .
qed

lemma patternBase_mining_db:
  assumes "mining_db D"
  shows "mining_db (patternBase (insert_all D new_Tree) r)"
  using assms patternBase_ascending_db[of D _ r] patternBase_pos[of D _ r]
  unfolding mining_db_def ascending_db_def by blast

lemma wsupp_pos_iff:
  assumes "\<forall>tc\<in>set D. 0 < snd tc"
  shows "(0 < wsupp D X) = (\<exists>tc\<in>set D. X \<subseteq> set (fst tc))"
proof
  assume "0 < wsupp D X"
  then have "filter (\<lambda>tc. X \<subseteq> set (fst tc)) D \<noteq> []" unfolding wsupp_def by auto
  then show "\<exists>tc\<in>set D. X \<subseteq> set (fst tc)" by (auto simp: filter_empty_conv)
next
  assume "\<exists>tc\<in>set D. X \<subseteq> set (fst tc)"
  then have "filter (\<lambda>tc. X \<subseteq> set (fst tc)) D \<noteq> []" by (auto simp: filter_empty_conv)
  then show "0 < wsupp D X" unfolding wsupp_def
    by (rule sum_list_pos') (use assms in simp)
qed

lemma wsupp_mono:
  assumes "\<forall>tc\<in>set D. 0 < snd tc" "X \<subseteq> Y"
  shows "wsupp D Y \<le> wsupp D X"
  using assms(1) unfolding wsupp_def
proof (induction D)
  case Nil
  then show ?case by simp
next
  case (Cons tc D)
  then show ?case using assms(2) by (auto intro: add_mono simp: less_imp_le)
qed

lemma linkCounts_built:
  assumes "\<forall>tc\<in>set D. distinct (fst tc)"
  shows "distinct (map fst (linkCounts (insert_all D new_Tree)))"
    and "((i, v) \<in> set (linkCounts (insert_all D new_Tree))) =
           ((\<exists>tc\<in>set D. i \<in> set (fst tc)) \<and> v = wsupp D {i})"
proof -
  let ?T = "insert_all D new_Tree"
  obtain pth where inv: "tree_inv ?T (all_visits D) pth" using built_inv by blast
  then have dk: "distinct (map fst (nodeLink ?T))" and "sum_inv ?T (all_visits D)"
    unfolding tree_inv_def link_inv_def by simp_all
  note si = this(2)[unfolded sum_inv_def, rule_format, of "\<lambda>_. True" i]
  show "distinct (map fst (linkCounts ?T))" unfolding keys_linkCounts by (rule dk)
  have val: "(\<Sum>a\<leftarrow>link ?T i. count_n (nodes ?T ! a)) = wsupp D {i}"
    using si all_visits_cond_sum[OF assms, of i "\<lambda>_. True"] by (simp add: wsupp_def)
  show "((i, v) \<in> set (linkCounts ?T)) =
           ((\<exists>tc\<in>set D. i \<in> set (fst tc)) \<and> v = wsupp D {i})"
  proof
    assume "(i, v) \<in> set (linkCounts ?T)"
    then obtain as where as: "(i, as) \<in> set (nodeLink ?T)" "v = (\<Sum>a\<leftarrow>as. count_n (nodes ?T ! a))"
      unfolding linkCounts_def by force
    from as(1) dk have m: "map_of (nodeLink ?T) i = Some as" by simp
    then have "link ?T i = as" "dict_has (nodeLink ?T) i" by (simp_all add: link_def dict_has_def)
    with as(2) val show "(\<exists>tc\<in>set D. i \<in> set (fst tc)) \<and> v = wsupp D {i}"
      unfolding built_keys[symmetric] by simp
  next
    assume a: "(\<exists>tc\<in>set D. i \<in> set (fst tc)) \<and> v = wsupp D {i}"
    then have "dict_has (nodeLink ?T) i" unfolding built_keys by simp
    then obtain as where m: "map_of (nodeLink ?T) i = Some as" unfolding dict_has_def by blast
    then have l: "link ?T i = as" by (simp add: link_def)
    from m have "(i, as) \<in> set (nodeLink ?T)" by (rule map_of_SomeD)
    then have "(i, (\<Sum>a\<leftarrow>as. count_n (nodes ?T ! a))) \<in> set (linkCounts ?T)"
      unfolding linkCounts_def by force
    with a val l show "(i, v) \<in> set (linkCounts ?T)" by simp
  qed
qed

section \<open>What the mining recursion returns\<close>

lemma ge_minSup_threshold: "threshold ms = Some thr \<Longrightarrow> ge_minSup ms c = Inr (thr \<le> of_int c)"
  by (cases ms) (auto split: if_splits)

lemma filterE_total: "(\<And>x. p x = Inr (q x)) \<Longrightarrow> filterE p xs = Inr (filter q xs)"
  by (induction xs) auto

lemma mined_functional: "mined thr D r pre k v \<Longrightarrow> mined thr D r pre k v' \<Longrightarrow> v = v'"
  unfolding mined_def by auto

lemma mined_step_sound:
  assumes "mining_db D" "mined thr (patternBase (insert_all D new_Tree) r) i (pre @ [i]) k v"
  shows "mined thr D r pre k v"
proof -
  let ?PB = "patternBase (insert_all D new_Tree) r"
  from assms(2) obtain ys where ys: "ys \<noteq> []" "k = (pre @ [i]) @ ys" "sorted_wrt (>) (i # ys)"
    "v = wsupp ?PB (set (i # ys))" "thr \<le> of_int v" "0 < v" unfolding mined_def by blast
  from assms(1) have a: "ascending_db D" unfolding mining_db_def by blast
  from ys(4,6) cond_wsupp[OF a, of r "set (i # ys)"]
  have lt: "\<forall>x\<in>set (i # ys). x < r" and v: "v = wsupp D (insert r (set (i # ys)))"
    by (auto split: if_splits)
  from lt ys(3) have "sorted_wrt (>) (r # i # ys)" by auto
  with ys v show ?thesis unfolding mined_def by (intro exI[of _ "i # ys"]) simp
qed

lemma mined_first_sound:
  assumes "mining_db D" "\<exists>tc\<in>set (patternBase (insert_all D new_Tree) r). i \<in> set (fst tc)"
    "thr \<le> of_int (wsupp (patternBase (insert_all D new_Tree) r) {i})"
  shows "mined thr D r pre (pre @ [i]) (wsupp (patternBase (insert_all D new_Tree) r) {i})"
proof -
  let ?PB = "patternBase (insert_all D new_Tree) r"
  from assms(1) have a: "ascending_db D" unfolding mining_db_def by blast
  from patternBase_mining_db[OF assms(1), of r] have "\<forall>tc\<in>set ?PB. 0 < snd tc"
    unfolding mining_db_def by blast
  from wsupp_pos_iff[OF this, of "{i}"] assms(2) have pos: "0 < wsupp ?PB {i}" by simp
  with cond_wsupp[OF a, of r "{i}"] have lt: "i < r" and v: "wsupp ?PB {i} = wsupp D {r, i}"
    by (auto split: if_splits)
  show ?thesis unfolding mined_def
    using lt v pos assms(3) by (intro exI[of _ "[i]"]) simp
qed

lemma mined_complete:
  assumes "mining_db D" "mined thr D r pre k v"
  shows "\<exists>i. (\<exists>tc\<in>set (patternBase (insert_all D new_Tree) r). i \<in> set (fst tc)) \<and>
             thr \<le> of_int (wsupp (patternBase (insert_all D new_Tree) r) {i}) \<and>
             (k = pre @ [i] \<or> mined thr (patternBase (insert_all D new_Tree) r) i (pre @ [i]) k v)"
proof -
  let ?PB = "patternBase (insert_all D new_Tree) r"
  from assms(2) obtain zs where zs: "zs \<noteq> []" "k = pre @ zs" "sorted_wrt (>) (r # zs)"
    "v = wsupp D (set (r # zs))" "thr \<le> of_int v" "0 < v" unfolding mined_def by blast
  then obtain i ys where z: "zs = i # ys" by (cases zs) auto
  from assms(1) have a: "ascending_db D" unfolding mining_db_def by blast
  from patternBase_mining_db[OF assms(1), of r] have p: "\<forall>tc\<in>set ?PB. 0 < snd tc"
    unfolding mining_db_def by blast
  from zs(3) have lt: "\<forall>x\<in>set zs. x < r" by auto
  with cond_wsupp[OF a, of r "set zs"] zs(4) have v: "wsupp ?PB (set zs) = v" by simp
  from wsupp_mono[OF p, of "{i}" "set zs"] z v have le: "v \<le> wsupp ?PB {i}" by simp
  with zs(5) have t: "thr \<le> of_int (wsupp ?PB {i})"
    by (meson of_int_le_iff order_trans)
  from le zs(6) have "0 < wsupp ?PB {i}" by simp
  with wsupp_pos_iff[OF p, of "{i}"] have occ: "\<exists>tc\<in>set ?PB. i \<in> set (fst tc)" by simp
  have "k = pre @ [i] \<or> mined thr ?PB i (pre @ [i]) k v"
  proof (cases "ys = []")
    case True
    with z zs(2) show ?thesis by simp
  next
    case False
    from zs(3) z have "sorted_wrt (>) (i # ys)" by simp
    with False z zs(2,5,6) v have "mined thr ?PB i (pre @ [i]) k v"
      unfolding mined_def by (intro exI[of _ ys]) simp
    then show ?thesis ..
  qed
  with occ t show ?thesis by blast
qed


lemma genFreq_correct:
  "threshold ms = Some thr \<Longrightarrow> mining_db D \<Longrightarrow> tr = insert_all D new_Tree \<Longrightarrow>
     dict_has (nodeLink tr) it \<Longrightarrow>
     \<exists>res. genFreqPatterns ms it pre tr = Inr res \<and> distinct (map fst res) \<and>
           (\<forall>k v. ((k, v) \<in> set res) = mined thr D it pre k v)"
  "threshold ms = Some thr \<Longrightarrow> mining_db PB \<Longrightarrow> C = insert_all PB new_Tree \<Longrightarrow>
     distinct (map fst fp) \<Longrightarrow> \<forall>iv\<in>set l. \<exists>tc\<in>set PB. fst iv \<in> set (fst tc) \<Longrightarrow>
     \<exists>res. genFreqLoop ms pre C l fp = Inr res \<and> distinct (map fst res) \<and>
           set res \<subseteq> set fp \<union>
             {(k, v). \<exists>iv\<in>set l. (k = pre @ [fst iv] \<and> v = snd iv) \<or>
                                  mined thr PB (fst iv) (pre @ [fst iv]) k v} \<and>
           fst ` set res = fst ` set fp \<union>
             {k. \<exists>iv\<in>set l. k = pre @ [fst iv] \<or>
                              (\<exists>v. mined thr PB (fst iv) (pre @ [fst iv]) k v)}"
proof (induction ms it pre tr and ms pre C l fp arbitrary: D and PB
    rule: genFreqPatterns_genFreqLoop.induct)
  case (1 ms it pre tr)
  let ?PB = "patternBase (insert_all D new_Tree) it"
  let ?C = "insert_all ?PB new_Tree"
  let ?fi = "filter (\<lambda>kv. thr \<le> of_int (snd kv)) (linkCounts ?C)"
  from "1.prems"(3,4) have C: "generateConditionalTree tr it = Inr ?C"
    by (simp add: generateConditionalTree_eq)
  have fi: "filterE (\<lambda>kv. ge_minSup ms (snd kv)) (linkCounts ?C) = Inr ?fi"
    by (rule filterE_total) (simp add: ge_minSup_threshold[OF "1.prems"(1)])
  have mpb: "mining_db ?PB" by (rule patternBase_mining_db[OF "1.prems"(2)])
  then have dpb: "\<forall>tc\<in>set ?PB. distinct (fst tc)" unfolding mining_db_def ascending_db_def by blast
  note lc = linkCounts_built(2)[OF dpb]
  have occ: "\<forall>iv\<in>set ?fi. \<exists>tc\<in>set ?PB. fst iv \<in> set (fst tc)"
  proof
    fix iv assume "iv \<in> set ?fi"
    then have "(fst iv, snd iv) \<in> set (linkCounts ?C)" by simp
    then show "\<exists>tc\<in>set ?PB. fst iv \<in> set (fst tc)" unfolding lc by blast
  qed
  from "1.IH"[OF C fi "1.prems"(1) mpb refl _ occ]
  obtain res where res: "genFreqLoop ms pre ?C ?fi [] = Inr res" "distinct (map fst res)"
    "set res \<subseteq> {(k, v). \<exists>iv\<in>set ?fi. (k = pre @ [fst iv] \<and> v = snd iv) \<or>
                                  mined thr ?PB (fst iv) (pre @ [fst iv]) k v}"
    "fst ` set res = {k. \<exists>iv\<in>set ?fi. k = pre @ [fst iv] \<or>
                              (\<exists>v. mined thr ?PB (fst iv) (pre @ [fst iv]) k v)}"
    by auto
  have eq: "genFreqPatterns ms it pre tr = Inr res" using C fi res(1) by simp
  have sound: "mined thr D it pre k v" if "(k, v) \<in> set res" for k v
  proof -
    from that res(3) obtain iv where iv: "iv \<in> set ?fi"
      "(k = pre @ [fst iv] \<and> v = snd iv) \<or> mined thr ?PB (fst iv) (pre @ [fst iv]) k v" by blast
    from iv(1) have in_lc: "(fst iv, snd iv) \<in> set (linkCounts ?C)" and t: "thr \<le> of_int (snd iv)"
      by simp_all
    from in_lc have o: "\<exists>tc\<in>set ?PB. fst iv \<in> set (fst tc)" and sv: "snd iv = wsupp ?PB {fst iv}"
      unfolding lc by blast+
    from iv(2) show ?thesis
    proof
      assume "k = pre @ [fst iv] \<and> v = snd iv"
      with mined_first_sound[OF "1.prems"(2) o, of thr pre] t sv show ?thesis by simp
    next
      assume "mined thr ?PB (fst iv) (pre @ [fst iv]) k v"
      then show ?thesis by (rule mined_step_sound[OF "1.prems"(2)])
    qed
  qed
  have complete: "(k, v) \<in> set res" if m: "mined thr D it pre k v" for k v
  proof -
    from mined_complete[OF "1.prems"(2) m] obtain i where i:
      "\<exists>tc\<in>set ?PB. i \<in> set (fst tc)" "thr \<le> of_int (wsupp ?PB {i})"
      "k = pre @ [i] \<or> mined thr ?PB i (pre @ [i]) k v" by blast
    from i(1) have "(i, wsupp ?PB {i}) \<in> set (linkCounts ?C)" unfolding lc by simp
    with i(2) have "(i, wsupp ?PB {i}) \<in> set ?fi" by simp
    with i(3) have "k \<in> {k. \<exists>iv\<in>set ?fi. k = pre @ [fst iv] \<or>
                              (\<exists>v. mined thr ?PB (fst iv) (pre @ [fst iv]) k v)}"
      by force
    then have "k \<in> fst ` set res" unfolding res(4) .
    then obtain v' where v': "(k, v') \<in> set res" by auto
    from mined_functional[OF m sound[OF v']] v' show ?thesis by simp
  qed
  from eq res(2) sound complete show ?case by blast
next
  case (2 ms pre C fp)
  then show ?case by simp
next
  case (3 ms pre C iv rest fp)
  let ?i = "fst iv"
  from "3.prems"(5) have occ: "\<exists>tc\<in>set PB. ?i \<in> set (fst tc)"
    and occ_rest: "\<forall>iv\<in>set rest. \<exists>tc\<in>set PB. fst iv \<in> set (fst tc)" by simp_all
  from occ have has: "dict_has (nodeLink C) ?i" unfolding "3.prems"(3) built_keys .
  from "3.IH"(1)[OF "3.prems"(1,2,3) has]
  obtain sub where sub: "genFreqPatterns ms ?i (pre @ [?i]) C = Inr sub" "distinct (map fst sub)"
    "\<forall>k v. ((k, v) \<in> set sub) = mined thr PB ?i (pre @ [?i]) k v" by blast
  let ?fp' = "dict_update (dict_set fp (pre @ [?i]) (snd iv)) sub"
  have dfp': "distinct (map fst ?fp')"
    by (intro distinct_dict_update distinct_dict_set "3.prems"(4))
  from "3.IH"(2)[OF sub(1) "3.prems"(1,2,3) dfp' occ_rest]
  obtain res where res: "genFreqLoop ms pre C rest ?fp' = Inr res" "distinct (map fst res)"
    "set res \<subseteq> set ?fp' \<union>
             {(k, v). \<exists>iv\<in>set rest. (k = pre @ [fst iv] \<and> v = snd iv) \<or>
                                  mined thr PB (fst iv) (pre @ [fst iv]) k v}"
    "fst ` set res = fst ` set ?fp' \<union>
             {k. \<exists>iv\<in>set rest. k = pre @ [fst iv] \<or>
                              (\<exists>v. mined thr PB (fst iv) (pre @ [fst iv]) k v)}" by blast
  have eq: "genFreqLoop ms pre C (iv # rest) fp = Inr res" using sub(1) res(1) by simp
  have s1: "set ?fp' \<subseteq> insert (pre @ [?i], snd iv) (set fp) \<union> set sub"
    using set_dict_update[of "dict_set fp (pre @ [?i]) (snd iv)" sub]
      set_dict_set[of fp "pre @ [?i]" "snd iv"] by blast
  have k1: "fst ` set ?fp' = insert (pre @ [?i]) (fst ` set fp) \<union> fst ` set sub"
    unfolding keys_dict_update keys_dict_set' ..
  have ksub: "fst ` set sub = {k. \<exists>v. mined thr PB ?i (pre @ [?i]) k v}"
    using sub(3) by force
  have A: "set res \<subseteq> set fp \<union>
             {(k, v). \<exists>iv'\<in>set (iv # rest). (k = pre @ [fst iv'] \<and> v = snd iv') \<or>
                                  mined thr PB (fst iv') (pre @ [fst iv']) k v}"
  proof
    fix x assume "x \<in> set res"
    with res(3) s1 consider "x = (pre @ [?i], snd iv)" | "x \<in> set fp" | "x \<in> set sub"
      | "x \<in> {(k, v). \<exists>iv\<in>set rest. (k = pre @ [fst iv] \<and> v = snd iv) \<or>
                                  mined thr PB (fst iv) (pre @ [fst iv]) k v}" by blast
    then show "x \<in> set fp \<union>
             {(k, v). \<exists>iv'\<in>set (iv # rest). (k = pre @ [fst iv'] \<and> v = snd iv') \<or>
                                  mined thr PB (fst iv') (pre @ [fst iv']) k v}"
    proof cases
      case 1
      then show ?thesis by simp
    next
      case 2
      then show ?thesis by simp
    next
      case 3
      then have "(fst x, snd x) \<in> set sub" by simp
      then have "mined thr PB ?i (pre @ [?i]) (fst x) (snd x)" using sub(3) by blast
      then show ?thesis by (cases x) auto
    next
      case 4
      then show ?thesis by (cases x) auto
    qed
  qed
  have B: "fst ` set res = fst ` set fp \<union>
             {k. \<exists>iv'\<in>set (iv # rest). k = pre @ [fst iv'] \<or>
                              (\<exists>v. mined thr PB (fst iv') (pre @ [fst iv']) k v)}"
    unfolding res(4) k1 ksub by auto
  from eq res(2) A B show ?case by blast
qed

section \<open>What the driving loop returns for one partition\<close>

lemma foldE_updates:
  assumes "\<forall>x\<in>set xs. h x = Inr (sub x)" "distinct (map fst s)"
  shows "\<exists>res. foldE (\<lambda>x fp. case h x of Inl e \<Rightarrow> Inl e | Inr sb \<Rightarrow> Inr (dict_update fp sb)) xs s = Inr res \<and>
           distinct (map fst res) \<and>
           set res \<subseteq> set s \<union> (\<Union>x\<in>set xs. set (sub x)) \<and>
           fst ` set res = fst ` set s \<union> (\<Union>x\<in>set xs. fst ` set (sub x))"
  using assms
proof (induction xs arbitrary: s)
  case Nil
  then show ?case by simp
next
  case (Cons x xs)
  from Cons.prems(1) have hx: "h x = Inr (sub x)" and rest: "\<forall>x\<in>set xs. h x = Inr (sub x)"
    by simp_all
  have d: "distinct (map fst (dict_update s (sub x)))"
    by (rule distinct_dict_update[OF Cons.prems(2)])
  from Cons.IH[OF rest d] obtain res where res:
    "foldE (\<lambda>x fp. case h x of Inl e \<Rightarrow> Inl e | Inr sb \<Rightarrow> Inr (dict_update fp sb)) xs
       (dict_update s (sub x)) = Inr res"
    "distinct (map fst res)"
    "set res \<subseteq> set (dict_update s (sub x)) \<union> (\<Union>x\<in>set xs. set (sub x))"
    "fst ` set res = fst ` set (dict_update s (sub x)) \<union> (\<Union>x\<in>set xs. fst ` set (sub x))"
    by blast
  have 1: "foldE (\<lambda>x fp. case h x of Inl e \<Rightarrow> Inl e | Inr sb \<Rightarrow> Inr (dict_update fp sb)) (x # xs) s
            = Inr res" using hx res(1) by simp
  have 2: "set res \<subseteq> set s \<union> (\<Union>x\<in>set (x # xs). set (sub x))"
    using res(3) set_dict_update[of s "sub x"] by auto
  have 3: "fst ` set res = fst ` set s \<union> (\<Union>x\<in>set (x # xs). fst ` set (sub x))"
    unfolding res(4) keys_dict_update by auto
  from 1 res(2) 2 3 show ?case by blast
qed

lemma built_itemCount_keys:
  "dict_has (itemCount (insert_all D new_Tree)) r = (\<exists>tc\<in>set D. r \<in> set (fst tc))"
proof -
  obtain pth where "tree_inv (insert_all D new_Tree) (all_visits D) pth" using built_inv by blast
  then have "map_of (itemCount (insert_all D new_Tree)) r =
          (if \<exists>v\<in>set (all_visits D). last (fst v) = r
           then Some (\<Sum>v\<leftarrow>filter (\<lambda>v. last (fst v) = r) (all_visits D). snd v) else None)"
    unfolding tree_inv_def count_inv_def by blast
  then show ?thesis by (simp add: dict_has_def all_visits_last_ex)
qed

lemma mined_head:
  assumes "mined thr D r [r] k v"
  shows "\<exists>ys. k = r # ys \<and> ys \<noteq> []"
  using assms unfolding mined_def by auto

lemma mined_occurs:
  assumes "mining_db D" "mined thr D r pre k v"
  shows "\<exists>tc\<in>set D. r \<in> set (fst tc)"
proof -
  from assms(2) obtain ys where "0 < wsupp D (set (r # ys))" unfolding mined_def by blast
  with wsupp_pos_iff[of D "set (r # ys)"] assms(1) show ?thesis
    unfolding mining_db_def by auto
qed

lemma genAll_correct:
  assumes "n \<noteq> 0" "threshold ms = Some thr" "mining_db D"
  shows "\<exists>res. genAllFrequentPatterns n ms (pid, insert_all D new_Tree) = Inr res \<and>
           distinct (map fst res) \<and>
           (\<forall>k v. ((k, v) \<in> set res) = (\<exists>r. int r mod n = pid \<and> mined thr D r [r] k v))"
proof -
  let ?T = "insert_all D new_Tree"
  let ?il = "filter (\<lambda>it. int it mod n = pid) (map fst (sort_key snd (itemCount ?T)))"
  let ?h = "\<lambda>it. genFreqPatterns ms it [it] ?T"
  have "genAllFrequentPatterns n ms (pid, ?T) =
          foldE (\<lambda>it fp. if int it mod n = pid
                         then (case ?h it of Inl e \<Rightarrow> Inl e | Inr sub \<Rightarrow> Inr (dict_update fp sub))
                         else Inr fp)
            (map fst (sort_key snd (itemCount ?T))) []"
    unfolding genAllFrequentPatterns_def Let_def getPartitionId_def fst_conv snd_conv
    using assms(1) by simp
  then have eq: "genAllFrequentPatterns n ms (pid, ?T) =
      foldE (\<lambda>it fp. case ?h it of Inl e \<Rightarrow> Inl e | Inr sub \<Rightarrow> Inr (dict_update fp sub)) ?il []"
    by (simp only: foldE_filter)
  have il: "set ?il = {r. int r mod n = pid \<and> (\<exists>tc\<in>set D. r \<in> set (fst tc))}"
  proof -
    have "set (map fst (sort_key snd (itemCount ?T))) = {r. dict_has (itemCount ?T) r}"
      by (auto simp: dict_has_def map_of_eq_None_iff)
    then show ?thesis unfolding built_itemCount_keys by auto
  qed
  have ex: "\<forall>it\<in>set ?il. \<exists>res. ?h it = Inr res \<and> distinct (map fst res) \<and>
           (\<forall>k v. ((k, v) \<in> set res) = mined thr D it [it] k v)"
  proof
    fix it assume "it \<in> set ?il"
    then have "dict_has (nodeLink ?T) it" unfolding il built_keys by simp
    from genFreq_correct(1)[OF assms(2,3) refl this, of "[it]"]
    show "\<exists>res. ?h it = Inr res \<and> distinct (map fst res) \<and>
           (\<forall>k v. ((k, v) \<in> set res) = mined thr D it [it] k v)" .
  qed
  define sub where "sub it = (case ?h it of Inr res \<Rightarrow> res | Inl e \<Rightarrow> [])" for it
  have hs: "\<forall>it\<in>set ?il. ?h it = Inr (sub it)" using ex unfolding sub_def by fastforce
  have subc: "((k, v) \<in> set (sub it)) = mined thr D it [it] k v" if "it \<in> set ?il" for it k v
    using ex that unfolding sub_def by fastforce
  from foldE_updates[OF hs, of "[]"] obtain res where res:
    "foldE (\<lambda>it fp. case ?h it of Inl e \<Rightarrow> Inl e | Inr sb \<Rightarrow> Inr (dict_update fp sb)) ?il [] = Inr res"
    "distinct (map fst res)" "set res \<subseteq> (\<Union>x\<in>set ?il. set (sub x))"
    "fst ` set res = (\<Union>x\<in>set ?il. fst ` set (sub x))" by auto
  have sound: "\<exists>r. int r mod n = pid \<and> mined thr D r [r] k v" if "(k, v) \<in> set res" for k v
  proof -
    from that res(3) obtain it where "it \<in> set ?il" "(k, v) \<in> set (sub it)" by blast
    with subc[of it k v] il show ?thesis by auto
  qed
  have complete: "(k, v) \<in> set res" if r: "int r mod n = pid" and m: "mined thr D r [r] k v" for r k v
  proof -
    from mined_occurs[OF assms(3) m] r have rin: "r \<in> set ?il" unfolding il by simp
    with subc[of r k v] m have "k \<in> fst ` set (sub r)" by force
    with rin have "k \<in> fst ` set res" unfolding res(4) by blast
    then obtain v' where v': "(k, v') \<in> set res" by auto
    from sound[OF v'] obtain r' where r': "mined thr D r' [r'] k v'" by blast
    from mined_head[OF m] mined_head[OF r'] have "r' = r" by auto
    with mined_functional[OF m] r' v' show ?thesis by auto
  qed
  from eq res(1,2) sound complete show ?thesis by (intro exI[of _ res]) auto
qed

section \<open>The stages of \<open>startMine\<close>\<close>


lemma mapE_Inr: "mapE f xs = Inr ys \<Longrightarrow> list_all2 (\<lambda>x y. f x = Inr y) xs ys"
  by (induction xs arbitrary: ys) (auto split: sum.splits)

lemma mapE_Inl: "mapE f xs = Inl e \<Longrightarrow> \<exists>x\<in>set xs. f x = Inl e"
  by (induction xs) (auto split: sum.splits)

lemma mapE_total: "\<forall>x\<in>set xs. f x = Inr (g x) \<Longrightarrow> mapE f xs = Inr (map g xs)"
  by (induction xs) auto






lemma startMine_steps:
  assumes "convert py (int (length lines)) (minSup self) = Inr (ms, out)"
    and "filterE (\<lambda>x. ge_minSup ms (snd x))
           (reduceByKey_add (concat (map (\<lambda>trans. map (\<lambda>it. (it, 1)) trans)
              (map parse_line lines)))) = Inr frequent"
    and "mapE (\<lambda>x. genCondTransaction (numPartitions self) x
                 (dict_of (map (\<lambda>(index, it). (it, index))
                    (enumerate 0 (map fst (sortBy_desc frequent))))))
           (map parse_line lines) = Inr cond"
    and "mapE (genAllFrequentPatterns (numPartitions self) ms)
           (foldByKey_buildTree (groupByKey (concat cond))) = Inr freqPatterns"
    and "mapE (to_labels (map fst (sortBy_desc frequent))) (concat freqPatterns) = Inr result"
  shows "startMine py self lines =
     Inr (self\<lparr>minSup := ms, lno := int (length lines),
               FPList := map fst (sortBy_desc frequent),
               finalPatterns :=
                 fold (\<lambda>(pattern, v) temp. dict_set temp (joinKey pattern) v)
                   (dict_update (dict_of (map (\<lambda>(it, c). (KStr it, c)) (sortBy_desc frequent)))
                      (dict_of result)) []\<rparr>,
          out @ [''Frequent patterns were generated successfully using Parallel FPGrowth algorithm''])"
  unfolding startMine_def Let_def length_map
  by (simp only: assms sum.case prod.case)






lemma reduceByKey_fold:
  "distinct (map fst d) \<Longrightarrow>
   distinct (map fst (fold (\<lambda>(k, v) d. dd_add d k v) kvs d)) \<and>
   map_of (fold (\<lambda>(k, v) d. dd_add d k v) kvs d) k =
     (if k \<in> fst ` set kvs \<or> map_of d k \<noteq> None
      then Some ((case map_of d k of None \<Rightarrow> 0 | Some v \<Rightarrow> v) +
                 sum_list (map snd (filter (\<lambda>kv. fst kv = k) kvs)))
      else None)"
proof (induction kvs arbitrary: d)
  case Nil
  then show ?case by (cases "map_of d k") simp_all
next
  case (Cons kv kvs)
  let ?d' = "dd_add d (fst kv) (snd kv)"
  have d': "distinct (map fst ?d')" unfolding dd_add_def by (rule distinct_dict_set[OF Cons.prems])
  have m: "map_of ?d' k = (if k = fst kv
      then Some ((case map_of d k of None \<Rightarrow> 0 | Some v \<Rightarrow> v) + snd kv) else map_of d k)"
    by (simp add: map_of_dd_add)
  have step: "fold (\<lambda>(k, v) d. dd_add d k v) (kv # kvs) d = fold (\<lambda>(k, v) d. dd_add d k v) kvs ?d'"
    by (simp add: case_prod_beta)
  note IH = Cons.IH[OF d']
  show ?case
  proof (cases "k = fst kv")
    case True
    with IH m show ?thesis unfolding step by simp
  next
    case False
    then have "(k \<in> fst ` set (kv # kvs)) = (k \<in> fst ` set kvs)" by auto
    with False IH m show ?thesis unfolding step by simp
  qed
qed

lemma reduceByKey_char:
  "distinct (map fst (reduceByKey_add kvs))"
  "map_of (reduceByKey_add kvs) k =
     (if k \<in> fst ` set kvs then Some (sum_list (map snd (filter (\<lambda>kv. fst kv = k) kvs))) else None)"
  using reduceByKey_fold[of "[]" kvs k] unfolding reduceByKey_add_def by simp_all





section \<open>Projection and grouping of the transactions\<close>

lemma filter_key_distinct:
  "distinct (map fst d) \<Longrightarrow>
   filter (\<lambda>kv. fst kv = p) d = (case map_of d p of None \<Rightarrow> [] | Some v \<Rightarrow> [(p, v)])"
proof (induction d)
  case Nil
  then show ?case by simp
next
  case (Cons kv d)
  show ?case
  proof (cases "fst kv = p")
    case True
    with Cons.prems have "p \<notin> fst ` set d" by auto
    then have "filter (\<lambda>kv. fst kv = p) d = []" by (auto simp: filter_empty_conv)
    with True show ?thesis by (cases kv) simp
  next
    case False
    with Cons show ?thesis by (cases kv) simp
  qed
qed

lemma groupByKey_fold:
  "distinct (map fst d) \<Longrightarrow>
   distinct (map fst (fold (\<lambda>(k, v) d. dict_set d k ((case map_of d k of None \<Rightarrow> [] | Some vs \<Rightarrow> vs) @ [v])) kvs d)) \<and>
   map_of (fold (\<lambda>(k, v) d. dict_set d k ((case map_of d k of None \<Rightarrow> [] | Some vs \<Rightarrow> vs) @ [v])) kvs d) k =
     (if k \<in> fst ` set kvs \<or> map_of d k \<noteq> None
      then Some ((case map_of d k of None \<Rightarrow> [] | Some vs \<Rightarrow> vs) @ map snd (filter (\<lambda>kv. fst kv = k) kvs))
      else None)"
proof (induction kvs arbitrary: d)
  case Nil
  then show ?case by (cases "map_of d k") simp_all
next
  case (Cons kv kvs)
  let ?d' = "dict_set d (fst kv) ((case map_of d (fst kv) of None \<Rightarrow> [] | Some vs \<Rightarrow> vs) @ [snd kv])"
  have d': "distinct (map fst ?d')" by (rule distinct_dict_set[OF Cons.prems])
  have m: "map_of ?d' k = (if k = fst kv
      then Some ((case map_of d k of None \<Rightarrow> [] | Some vs \<Rightarrow> vs) @ [snd kv]) else map_of d k)"
    by (simp add: map_of_dict_set)
  have step: "fold (\<lambda>(k, v) d. dict_set d k ((case map_of d k of None \<Rightarrow> [] | Some vs \<Rightarrow> vs) @ [v])) (kv # kvs) d =
        fold (\<lambda>(k, v) d. dict_set d k ((case map_of d k of None \<Rightarrow> [] | Some vs \<Rightarrow> vs) @ [v])) kvs ?d'"
    by (simp add: case_prod_beta)
  note IH = Cons.IH[OF d']
  show ?case
  proof (cases "k = fst kv")
    case True
    with IH m show ?thesis unfolding step by simp
  next
    case False
    then have "(k \<in> fst ` set (kv # kvs)) = (k \<in> fst ` set kvs)" by auto
    with False IH m show ?thesis unfolding step by simp
  qed
qed

lemma groupByKey_char:
  "distinct (map fst (groupByKey kvs))"
  "map_of (groupByKey kvs) k =
     (if k \<in> fst ` set kvs then Some (map snd (filter (\<lambda>kv. fst kv = k) kvs)) else None)"
  using groupByKey_fold[of "[]" kvs k] unfolding groupByKey_def by simp_all

lemma wsupp_append: "wsupp (A @ B) X = wsupp A X + wsupp B X"
  by (simp add: wsupp_def)

lemma project_map:
  "map_of (project n nt) p =
     map_option (\<lambda>i. take (index_of nt i + 1) nt) (find (\<lambda>i. int i mod n = p) (rev nt))"
  unfolding project_def by (simp add: project_fold_map)

lemma project_distinct: "distinct (map fst (project n nt))"
  unfolding project_def by (rule project_fold_distinct) simp

lemma sorted_distinct_le_take:
  assumes "sorted nt" "distinct nt" "k < length nt" "x \<in> set nt" "x \<le> (nt ! k :: nat)"
  shows "x \<in> set (take (Suc k) nt)"
proof -
  from assms(4) obtain i where i: "i < length nt" "nt ! i = x" by (auto simp: in_set_conv_nth)
  have "i \<le> k"
  proof (rule ccontr)
    assume "\<not> i \<le> k"
    then have ki: "k < i" by simp
    with assms(1) i(1) have "nt ! k \<le> nt ! i" by (simp add: sorted_nth_mono)
    moreover from ki assms(2,3) i(1) have "nt ! k \<noteq> nt ! i" by (simp add: nth_eq_iff_index_eq)
    ultimately show False using i(2) assms(5) by simp
  qed
  with i assms(3) show ?thesis by (auto simp: in_set_conv_nth intro!: exI[of _ i])
qed

lemma project_wsupp:
  assumes "sorted nt" "distinct nt" "int r mod n = p" "r \<in> X" "\<forall>x\<in>X. x \<le> r"
  shows "wsupp (map (\<lambda>kv. (snd kv, 1)) (filter (\<lambda>kv. fst kv = p) (project n nt))) X =
           (if X \<subseteq> set nt then 1 else 0)"
proof (cases "find (\<lambda>i. int i mod n = p) (rev nt)")
  case None
  then have "r \<notin> set nt" using assms(3) by (auto simp: find_None_iff)
  with assms(4) have "\<not> X \<subseteq> set nt" by auto
  moreover have "filter (\<lambda>kv. fst kv = p) (project n nt) = []"
    unfolding filter_key_distinct[OF project_distinct] project_map None by simp
  ultimately show ?thesis by (simp add: wsupp_def)
next
  case (Some m)
  from find_SomeD[OF Some] have m: "m \<in> set nt" "int m mod n = p" by simp_all
  have "sorted (rev (rev nt))" using assms(1) by simp
  from find_desc_max[OF this Some] have mx: "\<And>x. x \<in> set nt \<Longrightarrow> int x mod n = p \<Longrightarrow> x \<le> m"
    by simp
  from index_of_nth[OF m(1)] have k: "index_of nt m < length nt" "nt ! index_of nt m = m" by simp_all
  have f: "filter (\<lambda>kv. fst kv = p) (project n nt) = [(p, take (Suc (index_of nt m)) nt)]"
    unfolding filter_key_distinct[OF project_distinct] project_map Some by simp
  have "(X \<subseteq> set (take (Suc (index_of nt m)) nt)) = (X \<subseteq> set nt)"
  proof
    assume "X \<subseteq> set (take (Suc (index_of nt m)) nt)"
    then show "X \<subseteq> set nt" by (meson in_set_takeD subset_iff)
  next
    assume sub: "X \<subseteq> set nt"
    with assms(4) have "r \<in> set nt" by auto
    from mx[OF this assms(3)] have rm: "r \<le> m" .
    show "X \<subseteq> set (take (Suc (index_of nt m)) nt)"
    proof
      fix x assume x: "x \<in> X"
      with assms(5) rm have "x \<le> nt ! index_of nt m" unfolding k(2) by force
      from sorted_distinct_le_take[OF assms(1,2) k(1) _ this] x sub
      show "x \<in> set (take (Suc (index_of nt m)) nt)" by auto
    qed
  qed
  then show ?thesis unfolding f by (simp add: wsupp_def)
qed

lemma project_values:
  assumes "kv \<in> set (project n nt)"
  shows "\<exists>k. snd kv = take k nt"
proof -
  from assms project_distinct[of n nt] have "map_of (project n nt) (fst kv) = Some (snd kv)" by simp
  then have "\<exists>z. take (Suc (index_of nt z)) nt = snd kv" unfolding project_map by auto
  then obtain z where "take (Suc (index_of nt z)) nt = snd kv" ..
  then have "snd kv = take (Suc (index_of nt z)) nt" by (rule sym)
  then show ?thesis by (rule exI)
qed

lemma project_keys:
  "(p \<in> fst ` set (project n nt)) = (\<exists>r\<in>set nt. int r mod n = p)"
proof -
  have "(p \<in> fst ` set (project n nt)) = (map_of (project n nt) p \<noteq> None)"
    by (simp add: map_of_eq_None_iff)
  also have "\<dots> = (\<exists>r\<in>set nt. int r mod n = p)"
    unfolding project_map by (auto simp: find_None_iff)
  finally show ?thesis .
qed

text \<open>The transactions that the engine hands to partition \<open>p\<close>.\<close>

lemma group_wsupp:
  assumes "\<forall>nt\<in>set R. sorted nt \<and> distinct nt" "int r mod n = p" "r \<in> X" "\<forall>x\<in>X. x \<le> r"
  shows "wsupp (map (\<lambda>t. (t, 1)) (map snd (filter (\<lambda>kv. fst kv = p) (concat (map (project n) R))))) X =
         wsupp (map (\<lambda>t. (t, 1)) R) X"
  using assms(1)
proof (induction R)
  case Nil
  then show ?case by simp
next
  case (Cons nt R)
  from Cons.prems have nt: "sorted nt" "distinct nt" and R: "\<forall>nt\<in>set R. sorted nt \<and> distinct nt"
    by simp_all
  have "wsupp (map (\<lambda>t. (t, 1)) (map snd (filter (\<lambda>kv. fst kv = p) (concat (map (project n) (nt # R)))))) X =
        wsupp (map (\<lambda>kv. (snd kv, 1)) (filter (\<lambda>kv. fst kv = p) (project n nt))) X +
        wsupp (map (\<lambda>t. (t, 1)) (map snd (filter (\<lambda>kv. fst kv = p) (concat (map (project n) R))))) X"
    by (simp add: wsupp_append comp_def)
  also have "\<dots> = (if X \<subseteq> set nt then 1 else 0) + wsupp (map (\<lambda>t. (t, 1)) R) X"
    unfolding project_wsupp[OF nt assms(2,3,4)] Cons.IH[OF R] ..
  also have "\<dots> = wsupp (map (\<lambda>t. (t, 1)) (nt # R)) X" by (simp add: wsupp_def)
  finally show ?case .
qed

lemma group_mining_db:
  assumes "\<forall>nt\<in>set R. sorted nt \<and> distinct nt"
  shows "mining_db (map (\<lambda>t. (t, 1)) (map snd (filter (\<lambda>kv. fst kv = p) (concat (map (project n) R)))))"
proof -
  have "sorted (fst tc) \<and> distinct (fst tc) \<and> 0 < snd tc"
    if "tc \<in> set (map (\<lambda>t. (t, 1::int)) (map snd (filter (\<lambda>kv. fst kv = p) (concat (map (project n) R)))))"
    for tc
  proof -
    from that obtain nt kv where nt: "nt \<in> set R" "kv \<in> set (project n nt)" "tc = (snd kv, 1)"
      by auto
    from project_values[OF nt(2)] obtain k where "snd kv = take k nt" by blast
    with nt(1,3) assms show ?thesis by (auto simp: sorted_wrt_take)
  qed
  then show ?thesis unfolding mining_db_def ascending_db_def by blast
qed


section \<open>The ranking of the items\<close>

text \<open>A list of pairs in which a key has one value only.\<close>

lemma map_of_functional:
  assumes "\<And>v v'. (k, v) \<in> set e \<Longrightarrow> (k, v') \<in> set e \<Longrightarrow> v = v'"
  shows "(map_of e k = Some v) = ((k, v) \<in> set e)"
proof
  assume "map_of e k = Some v"
  then show "(k, v) \<in> set e" by (rule map_of_SomeD)
next
  assume kv: "(k, v) \<in> set e"
  then have "k \<in> fst ` set e" by force
  then obtain v' where v': "map_of e k = Some v'" by (cases "map_of e k") (auto simp: map_of_eq_None_iff)
  from map_of_SomeD[OF v'] kv assms have "v' = v" by blast
  with v' show "map_of e k = Some v" by simp
qed

lemma distinct_set_map_of:
  assumes "distinct (map fst d)"
  shows "((k, v) \<in> set d) = (map_of d k = Some v)"
  using assms by simp

lemma dict_update_functional:
  assumes "distinct (map fst d)"
    and "\<And>k v v'. (k, v) \<in> set d \<union> set e \<Longrightarrow> (k, v') \<in> set d \<union> set e \<Longrightarrow> v = v'"
  shows "distinct (map fst (dict_update d e))" and "set (dict_update d e) = set d \<union> set e"
proof -
  show dd: "distinct (map fst (dict_update d e))" by (rule distinct_dict_update[OF assms(1)])
  have e: "(map_of (rev e) k = Some v) = ((k, v) \<in> set e)" for k v
    using map_of_functional[of k "rev e" v] assms(2)[of k _ _] by auto
  have "((k, v) \<in> set (dict_update d e)) = ((k, v) \<in> set d \<union> set e)" for k v
  proof -
    have "((k, v) \<in> set (dict_update d e)) = ((map_of d ++ map_of (rev e)) k = Some v)"
      using distinct_set_map_of[OF dd, of k v] by (simp only: map_of_dict_update)
    also have "\<dots> = ((k, v) \<in> set d \<union> set e)"
    proof (cases "map_of (rev e) k")
      case None
      then have "\<And>v'. (k, v') \<notin> set e" using e[of k] by simp
      with None assms(1) show ?thesis by (simp add: map_add_def)
    next
      case (Some v')
      then have v': "(k, v') \<in> set e" using e[of k v'] by simp
      show ?thesis
      proof
        assume "(map_of d ++ map_of (rev e)) k = Some v"
        with Some have "v = v'" by (simp add: map_add_def)
        with v' show "(k, v) \<in> set d \<union> set e" by simp
      next
        assume "(k, v) \<in> set d \<union> set e"
        with v' assms(2)[of k v v'] have "v = v'" by blast
        with Some show "(map_of d ++ map_of (rev e)) k = Some v" by (simp add: map_add_def)
      qed
    qed
    finally show ?thesis .
  qed
  then show "set (dict_update d e) = set d \<union> set e" by auto
qed

lemma dict_of_functional:
  assumes "\<And>k v v'. (k, v) \<in> set e \<Longrightarrow> (k, v') \<in> set e \<Longrightarrow> v = v'"
  shows "distinct (map fst (dict_of e))" and "set (dict_of e) = set e"
  using dict_update_functional[of "[]" e] assms unfolding dict_of_def by auto

lemma fold_joinKey_eq:
  "fold (\<lambda>(pattern, v) temp. dict_set temp (joinKey pattern) v) d acc =
     dict_update acc (map (\<lambda>pv. (joinKey (fst pv), snd pv)) d)"
  by (induction d arbitrary: acc) (auto simp: dict_update_Nil dict_update_Cons)

text \<open>The counts of the single items.\<close>

lemma count_one:
  "distinct t \<Longrightarrow>
   sum_list (map snd (filter (\<lambda>kv. fst kv = x) (map (\<lambda>it. (it, 1::int)) t))) =
     (if x \<in> set t then 1 else 0)"
  by (induction t) auto

lemma count_support:
  assumes "\<forall>t\<in>set rdd. distinct t"
  shows "sum_list (map snd (filter (\<lambda>kv. fst kv = x)
           (concat (map (\<lambda>trans. map (\<lambda>it. (it, 1::int)) trans) rdd)))) = support rdd {x}"
  using assms
proof (induction rdd)
  case Nil
  then show ?case by (simp add: support_def)
next
  case (Cons t rdd)
  then have "distinct t" and "\<forall>t\<in>set rdd. distinct t" by simp_all
  with Cons.IH count_one[of t x] show ?case by (simp add: support_def)
qed

lemma support_pos_iff: "(0 < support rdd S) = (\<exists>t\<in>set rdd. S \<subseteq> set t)"
  unfolding support_def by (auto simp: filter_empty_conv)

lemma support_mono: "S \<subseteq> S' \<Longrightarrow> support rdd S' \<le> support rdd S"
proof (induction rdd)
  case Nil
  then show ?case by (simp add: support_def)
next
  case (Cons t rdd)
  then show ?case unfolding support_def by auto
qed

lemma counts_char:
  assumes "\<forall>t\<in>set rdd. distinct t"
  shows "distinct (map fst (reduceByKey_add (concat (map (\<lambda>trans. map (\<lambda>it. (it, 1)) trans) rdd))))"
    and "((x, c) \<in> set (reduceByKey_add (concat (map (\<lambda>trans. map (\<lambda>it. (it, 1)) trans) rdd)))) =
           ((\<exists>t\<in>set rdd. x \<in> set t) \<and> c = support rdd {x})"
proof -
  let ?kvs = "concat (map (\<lambda>trans. map (\<lambda>it. (it, 1::int)) trans) rdd)"
  show d: "distinct (map fst (reduceByKey_add ?kvs))" by (rule reduceByKey_char(1))
  have k: "(x \<in> fst ` set ?kvs) = (\<exists>t\<in>set rdd. x \<in> set t)" by (auto simp: image_iff)
  have "((x, c) \<in> set (reduceByKey_add ?kvs)) = (map_of (reduceByKey_add ?kvs) x = Some c)"
    using d by simp
  also have "\<dots> = ((\<exists>t\<in>set rdd. x \<in> set t) \<and> c = support rdd {x})"
    unfolding reduceByKey_char(2) k count_support[OF assms] by auto
  finally show "((x, c) \<in> set (reduceByKey_add ?kvs)) =
           ((\<exists>t\<in>set rdd. x \<in> set t) \<and> c = support rdd {x})" .
qed

lemma distinct_map_filter_fst: "distinct (map fst d) \<Longrightarrow> distinct (map fst (filter P d))"
  by (induction d) (auto simp: image_iff)

lemma freqItems_char:
  fixes thr :: rat and rdd :: "string list list"
  assumes "\<forall>t\<in>set rdd. distinct t"
  defines "fi \<equiv> sortBy_desc (filter (\<lambda>x. thr \<le> of_int (snd x))
       (reduceByKey_add (concat (map (\<lambda>trans. map (\<lambda>it. (it, 1)) trans) rdd))))"
  shows "distinct (map fst fi)"
    and "((x, c) \<in> set fi) = ((\<exists>t\<in>set rdd. x \<in> set t) \<and> c = support rdd {x} \<and> thr \<le> of_int c)"
    and "map fst fi = ranking thr rdd"
proof -
  let ?cnt = "reduceByKey_add (concat (map (\<lambda>trans. map (\<lambda>it. (it, 1::int)) trans) rdd))"
  let ?fr = "filter (\<lambda>x. thr \<le> of_int (snd x)) ?cnt"
  have "mset (map fst fi) = mset (map fst ?fr)" unfolding fi_def sortBy_desc_def by simp
  moreover have "distinct (map fst ?fr)" by (rule distinct_map_filter_fst[OF counts_char(1)[OF assms(1)]])
  ultimately show "distinct (map fst fi)" by (metis mset_eq_imp_distinct_iff)
  have "set fi = set ?fr" unfolding fi_def sortBy_desc_def by simp
  then show "((x, c) \<in> set fi) = ((\<exists>t\<in>set rdd. x \<in> set t) \<and> c = support rdd {x} \<and> thr \<le> of_int c)"
    using counts_char(2)[OF assms(1), of x c] by auto
  show "map fst fi = ranking thr rdd" by (simp add: fi_def ranking_def)
qed

text \<open>The rank table and the ranks of a transaction.\<close>

lemma rank_of_char:
  assumes "distinct fpl"
  shows "(map_of (rank_of fpl) x = Some i) = (i < length fpl \<and> fpl ! i = x)"
proof -
  let ?kvs = "map (\<lambda>(index, it). (it, index)) (enumerate 0 fpl)"
  have k: "map fst ?kvs = fpl"
    by (simp add: comp_def case_prod_beta)
  with assms have d: "distinct (map fst (rev ?kvs))" by (simp add: rev_map[symmetric])
  have "map_of (rank_of fpl) x = map_of (rev ?kvs) x"
    unfolding rank_of_def dict_of_def map_of_dict_update by (simp add: map_add_def)
  also have "(\<dots> = Some i) = ((x, i) \<in> set ?kvs)" using d by simp
  also have "\<dots> = ((i, x) \<in> set (enumerate 0 fpl))" by force
  also have "\<dots> = (i < length fpl \<and> fpl ! i = x)" by (auto simp: in_set_enumerate_eq)
  finally show ?thesis .
qed

lemma set_map_filter: "set (List.map_filter f xs) = {y. \<exists>x\<in>set xs. f x = Some y}"
  by (induction xs) (auto simp: map_filter_simps split: option.splits)

lemma distinct_map_filter:
  "distinct xs \<Longrightarrow> (\<And>x x' y. f x = Some y \<Longrightarrow> f x' = Some y \<Longrightarrow> x = x') \<Longrightarrow>
   distinct (List.map_filter f xs)"
proof (induction xs)
  case Nil
  then show ?case by (simp add: map_filter_simps)
next
  case (Cons x xs)
  then have IH: "distinct (List.map_filter f xs)" by simp
  show ?case
  proof (cases "f x")
    case None
    with IH show ?thesis by (simp add: map_filter_simps)
  next
    case (Some y)
    have "y \<notin> set (List.map_filter f xs)"
    proof
      assume "y \<in> set (List.map_filter f xs)"
      then obtain x' where "x' \<in> set xs" "f x' = Some y" unfolding set_map_filter by blast
      with Cons.prems(2)[OF Some this(2)] Cons.prems(1) show False by simp
    qed
    with IH Some show ?thesis by (simp add: map_filter_simps)
  qed
qed

lemma newTrans_char:
  assumes "distinct fpl"
  shows "sorted (newTrans_of fpl t)"
    and "set (newTrans_of fpl t) = {i. i < length fpl \<and> fpl ! i \<in> set t}"
    and "distinct t \<Longrightarrow> distinct (newTrans_of fpl t)"
proof -
  show "sorted (newTrans_of fpl t)" unfolding newTrans_of_def by simp
  show "set (newTrans_of fpl t) = {i. i < length fpl \<and> fpl ! i \<in> set t}"
    unfolding newTrans_of_def by (auto simp: set_map_filter rank_of_char[OF assms])
  assume "distinct t"
  then have "distinct (List.map_filter (map_of (rank_of fpl)) t)"
  proof (rule distinct_map_filter)
    fix x x' y assume "map_of (rank_of fpl) x = Some y" "map_of (rank_of fpl) x' = Some y"
    then show "x = x'" unfolding rank_of_char[OF assms] by simp
  qed
  then show "distinct (newTrans_of fpl t)" unfolding newTrans_of_def by simp
qed

lemma wsupp_ones: "wsupp (map (\<lambda>t. (t, 1)) R) X = int (length (filter (\<lambda>t. X \<subseteq> set t) R))"
  unfolding wsupp_def by (induction R) auto

lemma rank_support:
  assumes "distinct fpl"
  shows "wsupp (map (\<lambda>t. (t, 1)) (map (newTrans_of fpl) rdd)) X =
           (if \<forall>i\<in>X. i < length fpl then support rdd ((!) fpl ` X) else 0)"
proof -
  have "(X \<subseteq> set (newTrans_of fpl t)) = ((\<forall>i\<in>X. i < length fpl) \<and> (!) fpl ` X \<subseteq> set t)" for t
    unfolding newTrans_char(2)[OF assms] by auto
  then show ?thesis unfolding wsupp_ones support_def
    by (simp add: filter_map comp_def)
qed

text \<open>Joining the items of a pattern.\<close>

lemma joinTab_inject:
  assumes "\<forall>x\<in>set xs. CHR 0x09 \<notin> set x" "\<forall>y\<in>set ys. CHR 0x09 \<notin> set y"
    "joinTab xs = joinTab ys"
  shows "xs = ys"
  using assms
proof (induction xs arbitrary: ys)
  case Nil
  then show ?case by (cases ys) (auto simp: joinTab_def)
next
  case (Cons x xs)
  from Cons.prems(3) obtain y ys' where ys: "ys = y # ys'" by (cases ys) (auto simp: joinTab_def)
  from Cons.prems(3) have e: "x @ CHR 0x09 # joinTab xs = y @ CHR 0x09 # joinTab ys'"
    unfolding ys joinTab_def by simp
  from Cons.prems(1,2) have nx: "CHR 0x09 \<notin> set x" and ny: "CHR 0x09 \<notin> set y" unfolding ys by simp_all
  have "x = y \<and> joinTab xs = joinTab ys'"
  proof -
    have tw: "takeWhile (\<lambda>c. c \<noteq> CHR 0x09) (w @ CHR 0x09 # r) = w" if "CHR 0x09 \<notin> set w" for w r
      using that by (induction w) auto
    from e have "takeWhile (\<lambda>c. c \<noteq> CHR 0x09) (x @ CHR 0x09 # joinTab xs) =
                 takeWhile (\<lambda>c. c \<noteq> CHR 0x09) (y @ CHR 0x09 # joinTab ys')" by simp
    then have xy: "x = y" unfolding tw[OF nx] tw[OF ny] .
    with e show ?thesis by simp
  qed
  with Cons.IH[of ys'] Cons.prems(1,2) show ?case unfolding ys by simp
qed

lemma split_on_free: "\<forall>w\<in>set (split_on c s). c \<notin> set w"
  by (induction c s rule: split_on.induct) (auto split: list.splits)

lemma parse_line_free: "x \<in> set (parse_line l) \<Longrightarrow> CHR 0x09 \<notin> set x"
  unfolding parse_line_def using split_on_free by blast


section \<open>The whole run\<close>

lemma mapE_ex:
  "\<forall>x\<in>set xs. \<exists>y. f x = Inr y \<and> Q x y \<Longrightarrow> \<exists>ys. mapE f xs = Inr ys \<and> list_all2 Q xs ys"
proof (induction xs)
  case Nil
  then show ?case by simp
next
  case (Cons x xs)
  from Cons.prems obtain y where y: "f x = Inr y" "Q x y" by auto
  from Cons.IH Cons.prems obtain ys where ys: "mapE f xs = Inr ys" "list_all2 Q xs ys" by auto
  from y ys show ?case by simp
qed

lemma list_all2_right: "list_all2 Q xs ys \<Longrightarrow> y \<in> set ys \<Longrightarrow> \<exists>x\<in>set xs. Q x y"
  by (induction rule: list_all2_induct) auto

lemma list_all2_left: "list_all2 Q xs ys \<Longrightarrow> x \<in> set xs \<Longrightarrow> \<exists>y\<in>set ys. Q x y"
  by (induction rule: list_all2_induct) auto

lemma mined_group:
  assumes "\<forall>nt\<in>set R. sorted nt \<and> distinct nt" "int r mod n = p"
  shows "mined thr (map (\<lambda>t. (t, 1)) (map snd (filter (\<lambda>kv. fst kv = p) (concat (map (project n) R)))))
           r pre k v =
         mined thr (map (\<lambda>t. (t, 1)) R) r pre k v"
proof -
  have w: "wsupp (map (\<lambda>t. (t, 1)) (map snd (filter (\<lambda>kv. fst kv = p) (concat (map (project n) R)))))
             (set (r # ys)) = wsupp (map (\<lambda>t. (t, 1)) R) (set (r # ys))"
    if "sorted_wrt (>) (r # ys)" for ys
  proof (rule group_wsupp[OF assms])
    show "r \<in> set (r # ys)" by simp
    from that show "\<forall>x\<in>set (r # ys). x \<le> r" by auto
  qed
  show ?thesis unfolding mined_def
  proof (intro iff_exI)
    fix ys
    show "(ys \<noteq> [] \<and> k = pre @ ys \<and> sorted_wrt (>) (r # ys) \<and>
           v = wsupp (map (\<lambda>t. (t, 1)) (map snd (filter (\<lambda>kv. fst kv = p) (concat (map (project n) R)))))
                 (set (r # ys)) \<and> thr \<le> of_int v \<and> 0 < v) =
          (ys \<noteq> [] \<and> k = pre @ ys \<and> sorted_wrt (>) (r # ys) \<and>
           v = wsupp (map (\<lambda>t. (t, 1)) R) (set (r # ys)) \<and> thr \<le> of_int v \<and> 0 < v)"
    proof (cases "sorted_wrt (>) (r # ys)")
      case True
      show ?thesis unfolding w[OF True] ..
    next
      case False
      then show ?thesis by blast
    qed
  qed
qed

lemma groupByKey_set:
  "set (groupByKey kvs) = {(p, map snd (filter (\<lambda>kv. fst kv = p) kvs)) | p. p \<in> fst ` set kvs}"
proof -
  have "((p, data) \<in> set (groupByKey kvs)) =
          (p \<in> fst ` set kvs \<and> data = map snd (filter (\<lambda>kv. fst kv = p) kvs))" for p data
  proof -
    have "((p, data) \<in> set (groupByKey kvs)) = (map_of (groupByKey kvs) p = Some data)"
      using groupByKey_char(1)[of kvs] by simp
    also have "\<dots> = (p \<in> fst ` set kvs \<and> data = map snd (filter (\<lambda>kv. fst kv = p) kvs))"
      unfolding groupByKey_char(2) by auto
    finally show ?thesis .
  qed
  then show ?thesis by auto
qed

lemma trees_set:
  "set (foldByKey_buildTree (groupByKey kvs)) =
     {(p, insert_all (map (\<lambda>t. (t, 1)) (map snd (filter (\<lambda>kv. fst kv = p) kvs))) new_Tree) | p.
        p \<in> fst ` set kvs}"
  unfolding foldByKey_buildTree_def set_map groupByKey_set buildTree_eq by force

lemma partitions_mined:
  assumes "n \<noteq> 0" "threshold ms = Some thr" "\<forall>nt\<in>set R. sorted nt \<and> distinct nt"
  shows "\<exists>fps. mapE (genAllFrequentPatterns n ms)
                 (foldByKey_buildTree (groupByKey (concat (map (project n) R)))) = Inr fps \<and>
           (\<forall>k v. ((k, v) \<in> set (concat fps)) = (\<exists>r. mined thr (map (\<lambda>t. (t, 1)) R) r [r] k v))"
proof -
  let ?kvs = "concat (map (project n) R)"
  let ?D = "\<lambda>p. map (\<lambda>t. (t, 1::int)) (map snd (filter (\<lambda>kv. fst kv = p) ?kvs))"
  let ?R1 = "map (\<lambda>t. (t, 1::int)) R"
  let ?trees = "foldByKey_buildTree (groupByKey ?kvs)"
  let ?Q = "\<lambda>tt res. \<forall>k v. ((k, v) \<in> set res) = (\<exists>r. int r mod n = fst tt \<and> mined thr ?R1 r [r] k v)"
  have "\<forall>tt\<in>set ?trees. \<exists>res. genAllFrequentPatterns n ms tt = Inr res \<and> ?Q tt res"
  proof
    fix tt assume "tt \<in> set ?trees"
    then obtain p where tt: "tt = (p, insert_all (?D p) new_Tree)" unfolding trees_set by blast
    have "mining_db (?D p)" by (rule group_mining_db[OF assms(3)])
    from genAll_correct[OF assms(1,2) this, where pid = p]
    obtain res where res: "genAllFrequentPatterns n ms (p, insert_all (?D p) new_Tree) = Inr res"
      "\<And>k v. ((k, v) \<in> set res) = (\<exists>r. int r mod n = p \<and> mined thr (?D p) r [r] k v)" by blast
    have "?Q tt res" unfolding tt fst_conv res(2)
      using mined_group[OF assms(3), of _ n p thr] by blast
    with res(1) show "\<exists>res. genAllFrequentPatterns n ms tt = Inr res \<and> ?Q tt res" unfolding tt by blast
  qed
  from mapE_ex[OF this] obtain fps where fps: "mapE (genAllFrequentPatterns n ms) ?trees = Inr fps"
    "list_all2 ?Q ?trees fps" by blast
  have "((k, v) \<in> set (concat fps)) = (\<exists>r. mined thr ?R1 r [r] k v)" for k v
  proof
    assume "(k, v) \<in> set (concat fps)"
    then obtain res where res: "res \<in> set fps" "(k, v) \<in> set res" by auto
    from list_all2_right[OF fps(2) res(1)] obtain tt :: "int \<times> tree" where "?Q tt res" by blast
    with res(2) show "\<exists>r. mined thr ?R1 r [r] k v" by blast
  next
    assume "\<exists>r. mined thr ?R1 r [r] k v"
    then obtain r where m: "mined thr ?R1 r [r] k v" ..
    have "mining_db ?R1" using assms(3) unfolding mining_db_def ascending_db_def by auto
    from mined_occurs[OF this m] obtain nt where nt: "nt \<in> set R" "r \<in> set nt" by auto
    from nt(2) have "int r mod n \<in> fst ` set (project n nt)" unfolding project_keys by blast
    with nt(1) have "int r mod n \<in> fst ` set ?kvs" by auto
    then have "(int r mod n, insert_all (?D (int r mod n)) new_Tree) \<in> set ?trees"
      unfolding trees_set by blast
    from list_all2_left[OF fps(2) this] obtain res where res: "res \<in> set fps"
      "?Q (int r mod n, insert_all (?D (int r mod n)) new_Tree) res" by blast
    from res(2) m have "(k, v) \<in> set res" unfolding fst_conv by blast
    with res(1) show "(k, v) \<in> set (concat fps)" by auto
  qed
  with fps(1) show ?thesis by blast
qed

lemma to_labels_total:
  assumes "\<forall>i\<in>set k. i < length fpl"
  shows "to_labels fpl (k, v) = Inr (KTuple (map ((!) fpl) k), v)"
proof -
  have "mapE (nthE fpl) k = Inr (map ((!) fpl) k)"
    by (rule mapE_total) (simp add: nthE_def assms)
  then show ?thesis by (simp add: to_labels_def)
qed

lemma mined_ranks:
  assumes "distinct fpl" "mined thr (map (\<lambda>t. (t, 1)) (map (newTrans_of fpl) rdd)) r [r] k v"
  shows "\<forall>i\<in>set k. i < length fpl" and "v = support rdd ((!) fpl ` set k)"
    and "sorted_wrt (>) k" and "2 \<le> length k" and "thr \<le> of_int v" and "0 < v"
proof -
  from assms(2) obtain ys where ys: "ys \<noteq> []" "k = [r] @ ys" "sorted_wrt (>) (r # ys)"
    "v = wsupp (map (\<lambda>t. (t, 1)) (map (newTrans_of fpl) rdd)) (set (r # ys))"
    "thr \<le> of_int v" "0 < v" unfolding mined_def by blast
  from ys(2) have k: "k = r # ys" by simp
  from ys(4,6) rank_support[OF assms(1), of rdd "set k"] k
  show b: "\<forall>i\<in>set k. i < length fpl" by (metis less_irrefl)
  with ys(4) rank_support[OF assms(1), of rdd "set k"] k
  show "v = support rdd ((!) fpl ` set k)" by simp
  from ys(3) k show "sorted_wrt (>) k" by simp
  from ys(1) k show "2 \<le> length k" by (cases ys) simp_all
  from ys(5,6) show "thr \<le> of_int v" "0 < v" .
qed

lemma ranks_mined:
  assumes "distinct fpl" "sorted_wrt (>) k" "2 \<le> length k" "\<forall>i\<in>set k. i < length fpl"
    "v = support rdd ((!) fpl ` set k)" "thr \<le> of_int v" "0 < v"
  shows "\<exists>r. mined thr (map (\<lambda>t. (t, 1)) (map (newTrans_of fpl) rdd)) r [r] k v"
proof -
  from assms(3) obtain r ys where k: "k = r # ys" "ys \<noteq> []"
    by (cases k; cases "tl k") auto
  have "v = wsupp (map (\<lambda>t. (t, 1)) (map (newTrans_of fpl) rdd)) (set (r # ys))"
    unfolding rank_support[OF assms(1)] using assms(4,5) k by simp
  with k assms(2,6,7) have "mined thr (map (\<lambda>t. (t, 1)) (map (newTrans_of fpl) rdd)) r [r] k v"
    unfolding mined_def by auto
  then show ?thesis ..
qed

text \<open>
  The run of \<open>startMine\<close> on lines that repeat no item, with a partition count other than
  zero and a numeric threshold: it returns, and the final patterns are the strictly
  descending rank sequences over the frequent items whose items occur together in a
  transaction often enough, each once, with the number of these transactions.
\<close>

lemma startMine_char:
  fixes thr :: rat
  assumes n: "numPartitions self \<noteq> 0"
    and dl: "\<forall>l\<in>set lines. distinct (parse_line l)"
    and c: "convert py (int (length lines)) (minSup self) = Inr (ms, out)"
    and t: "threshold ms = Some thr"
  shows "\<exists>self'. startMine py self lines =
            Inr (self', out @ [''Frequent patterns were generated successfully using Parallel FPGrowth algorithm'']) \<and>
           minSup self' = ms \<and> FPList self' = ranking thr (map parse_line lines) \<and>
           distinct (FPList self') \<and>
           (\<forall>x\<in>set (FPList self'). CHR 0x09 \<notin> set x) \<and>
           (\<forall>x. (x \<in> set (FPList self')) =
                ((\<exists>t\<in>set (map parse_line lines). x \<in> set t) \<and>
                 thr \<le> of_int (support (map parse_line lines) {x}))) \<and>
           distinct (map fst (finalPatterns self')) \<and>
           (\<forall>s v. ((s, v) \<in> set (finalPatterns self')) =
              (\<exists>ranks. ranks \<noteq> [] \<and> sorted_wrt (>) ranks \<and>
                 (\<forall>i\<in>set ranks. i < length (FPList self')) \<and>
                 s = joinTab (map ((!) (FPList self')) ranks) \<and>
                 v = support (map parse_line lines) ((!) (FPList self') ` set ranks) \<and>
                 thr \<le> of_int v \<and> 0 < v))"
proof -
  let ?rdd = "map parse_line lines"
  let ?cnt = "reduceByKey_add (concat (map (\<lambda>trans. map (\<lambda>it. (it, 1::int)) trans) ?rdd))"
  let ?frequent = "filter (\<lambda>x. thr \<le> of_int (snd x)) ?cnt"
  let ?fi = "sortBy_desc ?frequent"
  let ?fpl = "map fst ?fi"
  let ?n = "numPartitions self"
  have dr: "\<forall>t\<in>set ?rdd. distinct t" using dl by simp
  note fic = freqItems_char[OF dr, where thr = thr]
  have fr: "filterE (\<lambda>x. ge_minSup ms (snd x)) ?cnt = Inr ?frequent"
    by (rule filterE_total) (simp add: ge_minSup_threshold[OF t])
  have dfpl: "distinct ?fpl" by (rule fic(1))
  have fplr: "?fpl = ranking thr ?rdd" by (rule fic(3))
  have rank: "dict_of (map (\<lambda>(index, it). (it, index)) (enumerate 0 ?fpl)) = rank_of ?fpl"
    by (simp add: rank_of_def)
  let ?R = "map (newTrans_of ?fpl) ?rdd"
  have "mapE (\<lambda>x. genCondTransaction ?n x (rank_of ?fpl)) ?rdd =
          Inr (map (\<lambda>x. project ?n (newTrans_of ?fpl x)) ?rdd)"
    by (rule mapE_total)
       (simp add: genCondTransaction_pure[OF n] project_def newTrans_of_def)
  then have cd: "mapE (\<lambda>x. genCondTransaction ?n x
        (dict_of (map (\<lambda>(index, it). (it, index)) (enumerate 0 ?fpl)))) ?rdd =
          Inr (map (project ?n) ?R)"
    unfolding rank by (simp add: comp_def)
  have sd: "\<forall>nt\<in>set ?R. sorted nt \<and> distinct nt"
    using newTrans_char(1,3)[OF dfpl] dr by auto
  from partitions_mined[OF n t sd] obtain fps where
    fps: "mapE (genAllFrequentPatterns ?n ms)
            (foldByKey_buildTree (groupByKey (concat (map (project ?n) ?R)))) = Inr fps"
    and mn: "\<And>k v. ((k, v) \<in> set (concat fps)) = (\<exists>r. mined thr (map (\<lambda>t. (t, 1)) ?R) r [r] k v)"
    by blast
  let ?g = "\<lambda>kv. (KTuple (map ((!) ?fpl) (fst kv)), snd kv)"
  have lab: "mapE (to_labels ?fpl) (concat fps) = Inr (map ?g (concat fps))"
  proof (rule mapE_total, rule ballI)
    fix kv assume "kv \<in> set (concat fps)"
    then have "(fst kv, snd kv) \<in> set (concat fps)" by simp
    then obtain r where "mined thr (map (\<lambda>t. (t, 1)) ?R) r [r] (fst kv) (snd kv)"
      unfolding mn by blast
    from mined_ranks(1)[OF dfpl this] have "to_labels ?fpl (fst kv, snd kv) = Inr (?g kv)"
      by (rule to_labels_total)
    then show "to_labels ?fpl kv = Inr (?g kv)" unfolding prod.collapse .
  qed
  let ?result = "map ?g (concat fps)"
  let ?e0 = "map (\<lambda>(it, c). (KStr it, c)) ?fi"
  let ?fp0 = "dict_of ?e0"
  let ?fp1 = "dict_update ?fp0 (dict_of ?result)"
  let ?L = "map (\<lambda>pv. (joinKey (fst pv), snd pv)) ?fp1"
  let ?temp = "fold (\<lambda>(pattern, v) temp. dict_set temp (joinKey pattern) v) ?fp1 []"
  let ?self' = "self\<lparr>minSup := ms, lno := int (length lines), FPList := ?fpl, finalPatterns := ?temp\<rparr>"
  note sm = startMine_steps[OF c fr cd fps lab]
  define its where "its = (\<lambda>key. case key of KStr x \<Rightarrow> [x] | KTuple items \<Rightarrow> items)"
  have jk: "joinKey key = joinTab (its key)" for key
    by (cases key) (simp_all add: its_def joinTab_def)
  have free: "CHR 0x09 \<notin> set x" if "x \<in> set ?fpl" for x
  proof -
    from that obtain c' where "(x, c') \<in> set ?fi" by force
    then obtain tr where "tr \<in> set ?rdd" "x \<in> set tr" unfolding fic(2) by blast
    then show ?thesis using parse_line_free by auto
  qed
  have mem: "(x \<in> set ?fpl) = ((\<exists>t\<in>set ?rdd. x \<in> set t) \<and> thr \<le> of_int (support ?rdd {x}))" for x
  proof
    assume "x \<in> set ?fpl"
    then obtain c' where "(x, c') \<in> set ?fi" by force
    then show "(\<exists>t\<in>set ?rdd. x \<in> set t) \<and> thr \<le> of_int (support ?rdd {x})"
      unfolding fic(2) by blast
  next
    assume "(\<exists>t\<in>set ?rdd. x \<in> set t) \<and> thr \<le> of_int (support ?rdd {x})"
    then have "(x, support ?rdd {x}) \<in> set ?fi" unfolding fic(2) by blast
    then show "x \<in> set ?fpl" by force
  qed
  have e0: "((key, v) \<in> set ?e0) = (\<exists>x. key = KStr x \<and> (x, v) \<in> set ?fi)" for key v
    by force
  have res: "((key, v) \<in> set ?result) =
               (\<exists>k. key = KTuple (map ((!) ?fpl) k) \<and> (k, v) \<in> set (concat fps))" for key v
    by force
  have P0: "v = support ?rdd (set (its key)) \<and> (\<forall>x\<in>set (its key). CHR 0x09 \<notin> set x)"
    if "(key, v) \<in> set ?e0" for key v
  proof -
    from that obtain x where x: "key = KStr x" "(x, v) \<in> set ?fi" unfolding e0 by blast
    from x(2) have "x \<in> set ?fpl" by force
    with x free[of x] show ?thesis unfolding fic(2) by (simp add: its_def)
  qed
  have P1: "v = support ?rdd (set (its key)) \<and> (\<forall>x\<in>set (its key). CHR 0x09 \<notin> set x)"
    if "(key, v) \<in> set ?result" for key v
  proof -
    from that obtain k where k: "key = KTuple (map ((!) ?fpl) k)" "(k, v) \<in> set (concat fps)"
      unfolding res by blast
    from k(2) obtain r where "mined thr (map (\<lambda>t. (t, 1)) ?R) r [r] k v" unfolding mn by blast
    note mr = mined_ranks[OF dfpl this]
    from mr(1) have "\<forall>x\<in>set (map ((!) ?fpl) k). CHR 0x09 \<notin> set x" using free by simp
    with mr(2) k(1) show ?thesis by (simp add: its_def)
  qed
  have f0: "distinct (map fst ?fp0)" and s0: "set ?fp0 = set ?e0"
  proof -
    have "v = v'" if "(k, v) \<in> set ?e0" "(k, v') \<in> set ?e0" for k v v'
      using P0[OF that(1)] P0[OF that(2)] by simp
    then show "distinct (map fst ?fp0)" "set ?fp0 = set ?e0"
      using dict_of_functional[of ?e0] by blast+
  qed
  have s1r: "set (dict_of ?result) = set ?result"
  proof -
    have "v = v'" if "(k, v) \<in> set ?result" "(k, v') \<in> set ?result" for k v v'
      using P1[OF that(1)] P1[OF that(2)] by simp
    then show ?thesis using dict_of_functional(2)[of ?result] by blast
  qed
  have P: "v = support ?rdd (set (its key)) \<and> (\<forall>x\<in>set (its key). CHR 0x09 \<notin> set x)"
    if "(key, v) \<in> set ?fp0 \<union> set (dict_of ?result)" for key v
    using that P0[of key v] P1[of key v] unfolding s0 s1r by blast
  have f1: "distinct (map fst ?fp1)" and s1: "set ?fp1 = set ?e0 \<union> set ?result"
  proof -
    have fn: "v = v'" if "(k, v) \<in> set ?fp0 \<union> set (dict_of ?result)"
      "(k, v') \<in> set ?fp0 \<union> set (dict_of ?result)" for k v v'
      using P[OF that(1)] P[OF that(2)] by simp
    from dict_update_functional(1)[OF f0, of "dict_of ?result"] fn
    show "distinct (map fst ?fp1)" by blast
    from dict_update_functional(2)[OF f0, of "dict_of ?result"] fn
    have "set ?fp1 = set ?fp0 \<union> set (dict_of ?result)" by blast
    then show "set ?fp1 = set ?e0 \<union> set ?result" unfolding s0 s1r .
  qed
  have temp: "?temp = dict_of ?L" unfolding fold_joinKey_eq dict_of_def ..
  have PL: "\<exists>key. s = joinTab (its key) \<and> (key, v) \<in> set ?e0 \<union> set ?result"
    if "(s, v) \<in> set ?L" for s v
  proof -
    from that obtain pv where "pv \<in> set ?fp1" "s = joinKey (fst pv)" "v = snd pv" by auto
    then have "(fst pv, v) \<in> set ?e0 \<union> set ?result" "s = joinTab (its (fst pv))"
      unfolding s1[symmetric] jk by simp_all
    then show ?thesis by blast
  qed
  have fL: "v = v'" if "(s, v) \<in> set ?L" "(s, v') \<in> set ?L" for s v v'
  proof -
    from PL[OF that(1)] obtain key where key: "s = joinTab (its key)" "(key, v) \<in> set ?e0 \<union> set ?result"
      by blast
    from PL[OF that(2)] obtain key' where key': "s = joinTab (its key')" "(key', v') \<in> set ?e0 \<union> set ?result"
      by blast
    from key(2) P0[of key v] P1[of key v]
    have a: "v = support ?rdd (set (its key))" "\<forall>x\<in>set (its key). CHR 0x09 \<notin> set x" by blast+
    from key'(2) P0[of key' v'] P1[of key' v']
    have b: "v' = support ?rdd (set (its key'))" "\<forall>x\<in>set (its key'). CHR 0x09 \<notin> set x" by blast+
    from key(1) key'(1) have "joinTab (its key) = joinTab (its key')" by simp
    from joinTab_inject[OF a(2) b(2) this] a(1) b(1) show "v = v'" by simp
  qed
  have dt: "distinct (map fst ?temp)" unfolding temp using dict_of_functional(1)[of ?L] fL by blast
  have st: "set ?temp = set ?L" unfolding temp using dict_of_functional(2)[of ?L] fL by blast
  have ch: "((s, v) \<in> set ?temp) =
          (\<exists>ranks. ranks \<noteq> [] \<and> sorted_wrt (>) ranks \<and> (\<forall>i\<in>set ranks. i < length ?fpl) \<and>
             s = joinTab (map ((!) ?fpl) ranks) \<and>
             v = support ?rdd ((!) ?fpl ` set ranks) \<and> thr \<le> of_int v \<and> 0 < v)" for s v
  proof
    assume "(s, v) \<in> set ?temp"
    then have "(s, v) \<in> set ?L" unfolding st .
    from PL[OF this] obtain key where key: "s = joinTab (its key)" "(key, v) \<in> set ?e0 \<union> set ?result"
      by blast
    from key(2) show "\<exists>ranks. ranks \<noteq> [] \<and> sorted_wrt (>) ranks \<and> (\<forall>i\<in>set ranks. i < length ?fpl) \<and>
             s = joinTab (map ((!) ?fpl) ranks) \<and>
             v = support ?rdd ((!) ?fpl ` set ranks) \<and> thr \<le> of_int v \<and> 0 < v"
    proof
      assume "(key, v) \<in> set ?e0"
      then obtain x where x: "key = KStr x" "(x, v) \<in> set ?fi" unfolding e0 by blast
      from x(2) have xv: "\<exists>t\<in>set ?rdd. x \<in> set t" "v = support ?rdd {x}" "thr \<le> of_int v"
        unfolding fic(2) by blast+
      from x(2) have "x \<in> set ?fpl" by force
      then obtain i where i: "i < length ?fpl" "?fpl ! i = x" unfolding in_set_conv_nth by blast
      from xv(1) have "0 < support ?rdd {x}" unfolding support_pos_iff by simp
      with xv(2) have pos: "0 < v" by simp
      have "[i] \<noteq> [] \<and> sorted_wrt (>) [i] \<and> (\<forall>j\<in>set [i]. j < length ?fpl) \<and>
             s = joinTab (map ((!) ?fpl) [i]) \<and>
             v = support ?rdd ((!) ?fpl ` set [i]) \<and> thr \<le> of_int v \<and> 0 < v"
        using i key(1) x(1) xv(2,3) pos by (simp add: its_def)
      then show ?thesis by (rule exI)
    next
      assume "(key, v) \<in> set ?result"
      then obtain k where k: "key = KTuple (map ((!) ?fpl) k)" "(k, v) \<in> set (concat fps)"
        unfolding res by blast
      from k(2) obtain r where "mined thr (map (\<lambda>t. (t, 1)) ?R) r [r] k v" unfolding mn by blast
      note mr = mined_ranks[OF dfpl this]
      from mr(4) have "k \<noteq> []" by auto
      with mr key(1) k(1)
      have "k \<noteq> [] \<and> sorted_wrt (>) k \<and> (\<forall>i\<in>set k. i < length ?fpl) \<and>
             s = joinTab (map ((!) ?fpl) k) \<and>
             v = support ?rdd ((!) ?fpl ` set k) \<and> thr \<le> of_int v \<and> 0 < v"
        by (simp add: its_def)
      then show ?thesis by (rule exI)
    qed
  next
    assume "\<exists>ranks. ranks \<noteq> [] \<and> sorted_wrt (>) ranks \<and> (\<forall>i\<in>set ranks. i < length ?fpl) \<and>
             s = joinTab (map ((!) ?fpl) ranks) \<and>
             v = support ?rdd ((!) ?fpl ` set ranks) \<and> thr \<le> of_int v \<and> 0 < v"
    then obtain ranks where rk: "ranks \<noteq> []" "sorted_wrt (>) ranks" "\<forall>i\<in>set ranks. i < length ?fpl"
      "s = joinTab (map ((!) ?fpl) ranks)" "v = support ?rdd ((!) ?fpl ` set ranks)"
      "thr \<le> of_int v" "0 < v" by blast
    have "\<exists>key. (key, v) \<in> set ?e0 \<union> set ?result \<and> its key = map ((!) ?fpl) ranks"
    proof (cases "2 \<le> length ranks")
      case True
      from ranks_mined[OF dfpl rk(2) True rk(3) rk(5,6,7)]
      have "(ranks, v) \<in> set (concat fps)" unfolding mn .
      then have "(KTuple (map ((!) ?fpl) ranks), v) \<in> set ?result" unfolding res by blast
      moreover have "its (KTuple (map ((!) ?fpl) ranks)) = map ((!) ?fpl) ranks" by (simp add: its_def)
      ultimately show ?thesis by blast
    next
      case False
      with rk(1) obtain i where i: "ranks = [i]" by (cases ranks; cases "tl ranks") auto
      with rk(3) have il: "i < length ?fpl" by simp
      then have "?fpl ! i \<in> set ?fpl" by (rule nth_mem)
      then obtain c' where c': "(?fpl ! i, c') \<in> set ?fi" by force
      then have "c' = support ?rdd {?fpl ! i}" unfolding fic(2) by blast
      with rk(5) i have "c' = v" by simp
      with c' have "(KStr (?fpl ! i), v) \<in> set ?e0" unfolding e0 by blast
      moreover have "its (KStr (?fpl ! i)) = map ((!) ?fpl) ranks" unfolding i by (simp add: its_def)
      ultimately show ?thesis by blast
    qed
    then obtain key where key: "(key, v) \<in> set ?e0 \<union> set ?result" "its key = map ((!) ?fpl) ranks"
      by blast
    from key(1) have "(key, v) \<in> set ?fp1" unfolding s1 .
    then have "(joinKey (fst (key, v)), snd (key, v)) \<in> set ?L" unfolding set_map by (rule imageI)
    then have "(s, v) \<in> set ?L" unfolding fst_conv snd_conv jk key(2) rk(4) .
    then show "(s, v) \<in> set ?temp" unfolding st .
  qed
  have fs: "FPList ?self' = ?fpl" "finalPatterns ?self' = ?temp" "minSup ?self' = ms" by simp_all
  show ?thesis
  proof (intro exI[of _ ?self'] conjI allI ballI)
    show "startMine py self lines =
            Inr (?self', out @ [''Frequent patterns were generated successfully using Parallel FPGrowth algorithm''])"
      by (rule sm)
    show "minSup ?self' = ms" by (rule fs(3))
    show "FPList ?self' = ranking thr ?rdd" unfolding fs(1) by (rule fplr)
    show "distinct (FPList ?self')" unfolding fs(1) by (rule dfpl)
    show "CHR 0x09 \<notin> set x" if "x \<in> set (FPList ?self')" for x
      using that unfolding fs(1) by (rule free)
    show "(x \<in> set (FPList ?self')) =
                ((\<exists>t\<in>set ?rdd. x \<in> set t) \<and> thr \<le> of_int (support ?rdd {x}))" for x
      unfolding fs(1) by (rule mem)
    show "distinct (map fst (finalPatterns ?self'))" unfolding fs(2) by (rule dt)
    show "((s, v) \<in> set (finalPatterns ?self')) =
              (\<exists>ranks. ranks \<noteq> [] \<and> sorted_wrt (>) ranks \<and>
                 (\<forall>i\<in>set ranks. i < length (FPList ?self')) \<and>
                 s = joinTab (map ((!) (FPList ?self')) ranks) \<and>
                 v = support ?rdd ((!) (FPList ?self') ` set ranks) \<and>
                 thr \<le> of_int v \<and> 0 < v)" for s v
      unfolding fs(1,2) by (rule ch)
  qed
qed


section \<open>Configuration: the minimum support and the separator\<close>




text \<open>
  C5 fails on the code: \<open>startMine\<close> never reads the configured separator and cuts every
  line at the tab. With the separator \<open>,\<close> the line \<open>a,b\<close> is one item, where cutting at the
  separator gives the items \<open>a\<close> and \<open>b\<close>.
\<close>

theorem startMine_ignores_sep:
  "sep (init ''db.txt'' (PInt 1) 1 '','') = '','' \<and>
   split_on (CHR '','') ''a,b'' = [''a'', ''b''] \<and>
   parse_line ''a,b'' = [''a,b''] \<and>
   map_sum id (\<lambda>r. finalPatterns (fst r))
     (startMine py_sample (init ''db.txt'' (PInt 1) 1 '','') [''a,b'', ''a,c'']) =
   Inr [(''a,b'' @ [CHR 0x09], 1), (''a,c'' @ [CHR 0x09], 1)]"
proof -
  have 1: "sep (init ''db.txt'' (PInt 1) 1 '','') = '',''" by (simp add: init_def)
  have 2: "split_on (CHR '','') ''a,b'' = [''a'', ''b'']" by simp
  have 3: "parse_line ''a,b'' = [''a,b'']" by (simp add: parse_line_def rstrip_def isspace_def)
  have 4: "map_sum id (\<lambda>r. finalPatterns (fst r))
     (startMine py_sample (init ''db.txt'' (PInt 1) 1 '','') [''a,b'', ''a,c'']) =
   Inr [(''a,b'' @ [CHR 0x09], 1), (''a,c'' @ [CHR 0x09], 1)]" by code_simp
  from 1 2 3 4 show ?thesis by simp
qed

end
